theory Spec2Isabelle
  imports Complex_Main "HOL-Library.Char_ord" "HOL-Library.List_Lexorder" "HOL-Library.Sublist"
begin

section \<open>Exceptions\<close>

text \<open>
  The Python exceptions the program can meet. Every constructor stands for an instance of
  a subclass of \<open>Exception\<close>; the string of \<open>Other\<close> is what \<open>str(e)\<close> prints.
\<close>

datatype exn = ValueError string | ZeroDivisionError | OverflowError | Other string

fun exn_str :: "exn \<Rightarrow> string" where
  "exn_str (ValueError msg) = msg"
| "exn_str ZeroDivisionError = ''integer division or modulo by zero''"
| "exn_str OverflowError = ''int too large to convert to float''"
| "exn_str (Other msg) = msg"

section \<open>Smoothing Engine: \<open>smooth_values\<close>\<close>

text \<open>
  Arrays of floats are lists of reals: the model keeps the shape of every arithmetic
  expression of the source and leaves IEEE rounding, infinities and NaN out.

  \<open>np.convolve(a, v, mode="same")\<close> is NumPy's: it swaps its arguments when \<open>v\<close> is the
  longer one, raises \<open>ValueError\<close> when either is empty, and returns the centred slice of
  length \<open>max(len(a), len(v))\<close> of the full convolution, starting at offset
  \<open>(min(len(a), len(v)) - 1) // 2\<close>.
\<close>

definition conv_full :: "real list \<Rightarrow> real list \<Rightarrow> real list" where
  "conv_full a v =
     map (\<lambda>k. sum_list (map (\<lambda>j. if j \<le> k \<and> k - j < length a then a ! (k - j) * v ! j else 0)
                              [0..<length v]))
         [0..<length a + length v - 1]"

definition np_convolve_same :: "real list \<Rightarrow> real list \<Rightarrow> exn + real list" where
  "np_convolve_same a v =
     (let (a', v') = (if length v > length a then (v, a) else (a, v)) in
      if length a' = 0 then Inl (ValueError ''a cannot be empty'')
      else if length v' = 0 then Inl (ValueError ''v cannot be empty'')
      else Inr (take (length a') (drop ((length v' - 1) div 2) (conv_full a' v'))))"

text \<open>
  \<open>float(n)\<close> of a Python integer rounds to the nearest double and raises
  \<open>OverflowError\<close> when that is beyond the largest one: from \<open>2^1024 - 2^970\<close> on, the
  midpoint between the largest double and \<open>2^1024\<close>. Below it the model takes the
  integer itself for its double.
\<close>

definition float_overflow_bound :: int where
  "float_overflow_bound = 2 ^ 1024 - 2 ^ 970"

definition py_float :: "int \<Rightarrow> exn + real" where
  "py_float n =
     (if - float_overflow_bound < n \<and> n < float_overflow_bound then Inr (real_of_int n)
      else Inl OverflowError)"

text \<open>
  \<open>np.ones(int(window), dtype=float) / float(window)\<close>: the uniform kernel, given the
  double \<open>fw\<close> of the window. The limits of memory on the size of an array are not
  modelled.
\<close>

definition ma_kernel :: "int \<Rightarrow> real \<Rightarrow> real list" where
  "ma_kernel window fw = replicate (nat window) (1 / fw)"

text \<open>
  \<open>np.empty_like(values, dtype=float)\<close> allocates an array of the same length whose
  cells are not initialised; the loop writes every cell before it reads it
  (lemma \<open>ema_loop_init\<close> below), so the model fills it with zeros.
\<close>

definition np_empty_like :: "real list \<Rightarrow> real list" where
  "np_empty_like values = replicate (length values) 0"

text \<open>The loop \<open>for i in range(1, len(values))\<close>, started at \<open>i = 1\<close>.\<close>

function ema_loop :: "real \<Rightarrow> real list \<Rightarrow> nat \<Rightarrow> real list \<Rightarrow> real list" where
  "ema_loop alpha values i smoothed =
     (if i < length values
      then ema_loop alpha values (Suc i)
             (smoothed[i := alpha * values ! i + (1 - alpha) * smoothed ! (i - 1)])
      else smoothed)"
  by pat_completeness auto
termination
  by (relation "measure (\<lambda>(alpha, values, i, smoothed). length values - i)") auto

declare ema_loop.simps [simp del]

definition smooth_values :: "real list \<Rightarrow> string \<Rightarrow> int option \<Rightarrow> exn + real list" where
  "smooth_values values method window =
     (case window of
        None \<Rightarrow> Inr values
      | Some w \<Rightarrow>
          if w \<le> 1 then Inr values
          else if method = ''ma'' then
            (case py_float w of
               Inl e \<Rightarrow> Inl e
             | Inr fw \<Rightarrow> np_convolve_same values (ma_kernel w fw))
          else
            (case py_float w of
               Inl e \<Rightarrow> Inl e
             | Inr fw \<Rightarrow>
                 let alpha = 2 / (fw + 1);
                     smoothed = np_empty_like values
                 in if length values = 0 then Inr values
                    else Inr (ema_loop alpha values 1 (smoothed[0 := values ! 0]))))"

text \<open>
  The exponential recurrence in the words of the specification: the output has the
  length of the input, starts with the first input value, and every later cell is
  \<open>alpha * v[i] + (1 - alpha) * out[i-1]\<close>.
\<close>

definition is_ema :: "real \<Rightarrow> real list \<Rightarrow> real list \<Rightarrow> bool" where
  "is_ema alpha v out \<longleftrightarrow>
     length out = length v \<and>
     (v \<noteq> [] \<longrightarrow> out ! 0 = v ! 0) \<and>
     (\<forall>i \<in> {1..<length v}. out ! i = alpha * v ! i + (1 - alpha) * out ! (i - 1))"


section \<open>Series Merger: \<open>load_tb_data\<close>\<close>

text \<open>
  A resolved path (\<open>Path(p).resolve()\<close>) is absolute and normalised; it is modelled by
  the list of its components below the root. What resolving does depends on the file
  system and the working directory, so it is a parameter of the model:
  \<open>resolve_path p\<close> is the exception that \<open>Path(p).resolve()\<close> raises (a loop of
  symbolic links, a null byte in the name) or the resolved path. So is the event-log
  reader: \<open>ea_open f\<close> is either the exception raised by \<open>EventAccumulator(f)\<close>,
  \<open>Reload()\<close> or \<open>Tags()\<close>, or the list of scalar tags, each with what
  \<open>Scalars(tag)\<close> does: raise, or return the events of the tag.
\<close>

type_synonym path = "string list"

record event =
  ev_step :: int
  ev_value :: real
  ev_wall_time :: real

type_synonym accumulator = "(string \<times> (exn + event list)) list"

record env =
  resolve_path :: "string \<Rightarrow> exn + path"
  ea_open :: "string \<Rightarrow> exn + accumulator"

text \<open>The resolved path of a name that resolves.\<close>

definition resolve :: "env \<Rightarrow> string \<Rightarrow> path" where
  "resolve fs p = (case resolve_path fs p of Inr q \<Rightarrow> q | Inl e \<Rightarrow> [])"

text \<open>
  \<open>[Path(d).resolve() for d in base_directories]\<close>: the first name that does not
  resolve ends the comprehension with its exception.
\<close>

fun resolve_all :: "env \<Rightarrow> string list \<Rightarrow> exn + path list" where
  "resolve_all fs [] = Inr []"
| "resolve_all fs (d # ds) =
     (case resolve_path fs d of
        Inl e \<Rightarrow> Inl e
      | Inr p \<Rightarrow> (case resolve_all fs ds of Inl e \<Rightarrow> Inl e | Inr ps \<Rightarrow> Inr (p # ps)))"

record series_record =
  sr_steps :: "int list"
  sr_values :: "real list"
  sr_walltimes :: "real list"
  sr_run_name :: string
  sr_file_path :: string

text \<open>
  The Metric Collection is a \<open>defaultdict(list)\<close>: an association list with distinct
  keys, in insertion order.
\<close>

type_synonym collection = "(string \<times> series_record list) list"

text \<open>
  The state of a run of \<open>load_tb_data\<close>: the collection, what has been printed, and
  the exception that has left the function, if one has. The function returns
  \<open>ld_data\<close> when \<open>ld_raised\<close> is \<open>None\<close>; otherwise the batch has ended with that
  exception and nothing is returned.
\<close>

record load_state =
  ld_data :: collection
  ld_stdout :: "string list"
  ld_raised :: "exn option"

text \<open>\<open>Path.parent\<close>: the parent of the root is the root.\<close>

definition parent :: "path \<Rightarrow> path" where
  "parent p = butlast p"

text \<open>
  \<open>PurePath.relative_to\<close> on absolute paths: the remaining components when \<open>base\<close> is a
  leading part of \<open>p\<close>, \<open>ValueError\<close> otherwise.
\<close>

definition relative_to :: "path \<Rightarrow> path \<Rightarrow> exn + path" where
  "relative_to p base =
     (if take (length base) p = base then Inr (drop (length base) p)
      else Inl (ValueError ''path is not in the subpath of base''))"

fun join_path :: "string list \<Rightarrow> string" where
  "join_path [] = []"
| "join_path [c] = c"
| "join_path (c # cs) = c @ ''/'' @ join_path cs"

text \<open>\<open>str\<close> of a relative path (the empty one prints as a dot) and of an absolute one.\<close>

definition rel_str :: "path \<Rightarrow> string" where
  "rel_str p = (if p = [] then ''.'' else join_path p)"

definition abs_str :: "path \<Rightarrow> string" where
  "abs_str p = ''/'' @ join_path p"

text \<open>
  The loop over \<open>base_paths\<close> with its \<open>try\<close>, \<open>break\<close> and \<open>continue\<close>; \<open>None\<close> is
  the \<open>run_name\<close> that no base directory has set.
\<close>

fun find_run_name :: "path \<Rightarrow> path list \<Rightarrow> string option" where
  "find_run_name log_dir [] = None"
| "find_run_name log_dir (base_path # rest) =
     (case relative_to log_dir base_path of
        Inr rel_path \<Rightarrow> Some (rel_str rel_path)
      | Inl e \<Rightarrow> find_run_name log_dir rest)"

definition compute_run_name :: "path \<Rightarrow> path list \<Rightarrow> string" where
  "compute_run_name log_dir base_paths =
     (case find_run_name log_dir base_paths of
        None \<Rightarrow> abs_str log_dir
      | Some run_name \<Rightarrow> run_name)"

text \<open>\<open>data[tag].append(r)\<close> on the \<open>defaultdict\<close>.\<close>

fun append_record :: "collection \<Rightarrow> string \<Rightarrow> series_record \<Rightarrow> collection" where
  "append_record [] tag r = [(tag, [r])]"
| "append_record ((k, rs) # d) tag r =
     (if k = tag then (k, rs @ [r]) # d else (k, rs) # append_record d tag r)"

text \<open>
  The loop over \<open>scalar_tags\<close>. It returns the collection as the loop left it and the
  exception that ended it, if one did: the records appended before a \<open>Scalars\<close> call
  raises stay in the collection.
\<close>

fun load_tags ::
  "int option \<Rightarrow> string \<Rightarrow> string \<Rightarrow> accumulator \<Rightarrow> collection \<Rightarrow> collection \<times> exn option" where
  "load_tags max_step run_name tb_file [] data = (data, None)"
| "load_tags max_step run_name tb_file ((tag, Inl e) # rest) data = (data, Some e)"
| "load_tags max_step run_name tb_file ((tag, Inr events) # rest) data =
     (if events \<noteq> [] then
        let steps = map ev_step events;
            vals = map ev_value events;
            walltimes = map ev_wall_time events
        in (case max_step of
              None \<Rightarrow>
                load_tags max_step run_name tb_file rest
                  (append_record data tag
                     \<lparr>sr_steps = steps, sr_values = vals, sr_walltimes = walltimes,
                      sr_run_name = run_name, sr_file_path = tb_file\<rparr>)
            | Some m \<Rightarrow>
                let filtered_data = filter (\<lambda>(s, v, w). s \<le> m) (zip steps (zip vals walltimes))
                in if filtered_data \<noteq> [] then
                     load_tags max_step run_name tb_file rest
                       (append_record data tag
                          \<lparr>sr_steps = map fst filtered_data,
                           sr_values = map (\<lambda>(s, v, w). v) filtered_data,
                           sr_walltimes = map (\<lambda>(s, v, w). w) filtered_data,
                           sr_run_name = run_name, sr_file_path = tb_file\<rparr>)
                   else load_tags max_step run_name tb_file rest data)
      else load_tags max_step run_name tb_file rest data)"

text \<open>
  One round of the loop over \<open>tb_files\<close>, with its two \<open>print\<close> calls. Resolving the
  path comes before the \<open>try\<close>: its exception leaves the function and ends the batch.
  The exceptions of the reader are caught. Once an exception has left the function no
  further round runs.
\<close>

definition load_file :: "env \<Rightarrow> path list \<Rightarrow> int option \<Rightarrow> load_state \<Rightarrow> string \<Rightarrow> load_state" where
  "load_file fs base_paths max_step st tb_file =
     (if ld_raised st \<noteq> None then st
      else
        let out = ld_stdout st @ [''Loading: '' @ tb_file]
        in case resolve_path fs tb_file of
             Inl e \<Rightarrow> \<lparr>ld_data = ld_data st, ld_stdout = out, ld_raised = Some e\<rparr>
           | Inr tb_file_path \<Rightarrow>
               let log_dir = parent tb_file_path;
                   run_name = compute_run_name log_dir base_paths
               in case ea_open fs tb_file of
                    Inl e \<Rightarrow>
                      \<lparr>ld_data = ld_data st,
                       ld_stdout = out @ [''Failed to load file '' @ tb_file @ '': '' @ exn_str e],
                       ld_raised = None\<rparr>
                  | Inr ea \<Rightarrow>
                      (case load_tags max_step run_name tb_file ea (ld_data st) of
                         (data, None) \<Rightarrow> \<lparr>ld_data = data, ld_stdout = out, ld_raised = None\<rparr>
                       | (data, Some e) \<Rightarrow>
                           \<lparr>ld_data = data,
                            ld_stdout = out @ [''Failed to load file '' @ tb_file @ '': '' @ exn_str e],
                            ld_raised = None\<rparr>))"

definition load_files :: "env \<Rightarrow> path list \<Rightarrow> int option \<Rightarrow> load_state \<Rightarrow> string list \<Rightarrow> load_state" where
  "load_files fs base_paths max_step st tb_files = foldl (load_file fs base_paths max_step) st tb_files"

text \<open>
  \<open>load_tb_data\<close>: the base directories are resolved first, then the files are loaded
  in turn. \<open>ld_stdout\<close> of the final state is what has been printed.
\<close>

definition load_tb_data :: "env \<Rightarrow> string list \<Rightarrow> string list \<Rightarrow> int option \<Rightarrow> load_state" where
  "load_tb_data fs tb_files base_directories max_step =
     (case resolve_all fs base_directories of
        Inl e \<Rightarrow> \<lparr>ld_data = [], ld_stdout = [], ld_raised = Some e\<rparr>
      | Inr base_paths \<Rightarrow>
          load_files fs base_paths max_step
            \<lparr>ld_data = [], ld_stdout = [], ld_raised = None\<rparr> tb_files)"

text \<open>The records of a collection, each with its tag, and the records under one tag.\<close>

definition tagged_records :: "collection \<Rightarrow> (string \<times> series_record) list" where
  "tagged_records data = concat (map (\<lambda>(tag, rs). map (Pair tag) rs) data)"

definition records_of :: "collection \<Rightarrow> string \<Rightarrow> series_record list" where
  "records_of data tag = (case map_of data tag of None \<Rightarrow> [] | Some rs \<Rightarrow> rs)"

text \<open>
  The run identifier in the words of the specification: the parent directory relative
  to the first root that contains it, the absolute parent directory when none does.
\<close>

definition run_identifier :: "path \<Rightarrow> path list \<Rightarrow> string" where
  "run_identifier dir roots =
     (case List.find (\<lambda>rt. prefix rt dir) roots of
        Some rt \<Rightarrow> rel_str (drop (length rt) dir)
      | None \<Rightarrow> abs_str dir)"

text \<open>
  The error that reading a file ends with: the one of opening it, or the one of the
  first \<open>Scalars\<close> call that raises.
\<close>

fun first_error :: "accumulator \<Rightarrow> exn option" where
  "first_error [] = None"
| "first_error ((tag, Inl e) # rest) = Some e"
| "first_error ((tag, Inr events) # rest) = first_error rest"

definition read_error :: "env \<Rightarrow> string \<Rightarrow> exn option" where
  "read_error fs tb_file =
     (case ea_open fs tb_file of Inl e \<Rightarrow> Some e | Inr ea \<Rightarrow> first_error ea)"


section \<open>Figure Composer and Color Assignment: \<open>create_visualization\<close>\<close>

text \<open>
  Of the plotting backend the model keeps every line that \<open>ax.plot\<close> draws, with its
  arguments, per subplot, and the layout of the figure, and the checks of the arguments
  by which \<open>plt.figure\<close>, \<open>GridSpec\<close> and \<open>ax.plot\<close> raise \<open>ValueError\<close>. What the
  backend does with a figure that is drawn (legend, rasterising, writing the file,
  \<open>plt.show\<close>) is outside the model, as are the summary lines printed at the end:
  \<open>Saved\<close> says that the drawing is complete and \<open>savefig\<close> is reached.
  \<open>get_color\<close> of a drawn line is the colour it was drawn with.
\<close>

record plot_call =
  pc_x :: "real list"
  pc_y :: "real list"
  pc_label :: string
  pc_color :: string
  pc_alpha :: real
  pc_linewidth :: real

record subplot =
  sp_row :: int
  sp_col :: int
  sp_lines :: "plot_call list"
  sp_title :: string
  sp_xlabel :: string
  sp_ylabel :: string

record figure =
  fig_width :: real
  fig_height :: real
  fig_rows :: int
  fig_cols :: int
  fig_axes :: "subplot list"
  fig_suptitle :: string
  fig_saved_to :: string

datatype outcome = No_data | Saved figure

record vis_options =
  output_path :: string
  figsize_per_plot :: "real \<times> real"
  max_cols :: int
  show_fig :: bool
  smooth_method :: "string option"
  smooth_window :: "int option"
  show_raw_and_smooth :: bool
  x_axis :: string

text \<open>
  \<open>rc_colors\<close> is what \<open>plt.rcParams\<close> holds: \<open>None\<close> when there is no property cycle
  or the cycle has no colours, the colours of the cycle otherwise.
\<close>

definition fallback_colors :: "string list" where
  "fallback_colors =
     [''#1f77b4'', ''#ff7f0e'', ''#2ca02c'', ''#d62728'', ''#9467bd'',
      ''#8c564b'', ''#e377c2'', ''#7f7f7f'', ''#bcbd22'', ''#17becf'']"

definition palette :: "string list option \<Rightarrow> string list" where
  "palette rc_colors =
     (let colors = (case rc_colors of None \<Rightarrow> [] | Some cs \<Rightarrow> cs)
      in if colors = [] then fallback_colors else colors)"

text \<open>
  \<open>color_pos\<close> counts the calls of \<open>next(color_iter)\<close> made so far on
  \<open>itertools.cycle(colors)\<close>.
\<close>

record color_state =
  color_pos :: nat
  run_color_map :: "string \<rightharpoonup> string"

definition resolve_color :: "string list \<Rightarrow> color_state \<Rightarrow> string \<Rightarrow> string \<times> color_state" where
  "resolve_color colors cs run_name =
     (case run_color_map cs run_name of
        Some run_color \<Rightarrow> (run_color, cs)
      | None \<Rightarrow>
          let run_color = colors ! (color_pos cs mod length colors)
          in (run_color,
              \<lparr>color_pos = Suc (color_pos cs),
               run_color_map = (run_color_map cs)(run_name \<mapsto> run_color)\<rparr>))"

text \<open>Python's truth value of \<open>smooth_method\<close>: \<open>None\<close> and the empty string are false.\<close>

definition truthy :: "string option \<Rightarrow> bool" where
  "truthy m = (case m of None \<Rightarrow> False | Some s \<Rightarrow> s \<noteq> [])"

definition x_data_of :: "vis_options \<Rightarrow> series_record \<Rightarrow> real list" where
  "x_data_of opts run_data =
     (if x_axis opts = ''walltime'' then
        (if length (sr_walltimes run_data) > 0
         then map (\<lambda>w. (w - sr_walltimes run_data ! 0) / 3600) (sr_walltimes run_data)
         else sr_walltimes run_data)
      else map real_of_int (sr_steps run_data))"

text \<open>
  \<open>ax.plot(x, y, label=..., color=..., alpha=..., linewidth=...)\<close> raises
  \<open>ValueError\<close> when \<open>x\<close> and \<open>y\<close> differ in length and draws the line otherwise.
\<close>

definition ax_plot ::
  "real list \<Rightarrow> real list \<Rightarrow> string \<Rightarrow> string \<Rightarrow> real \<Rightarrow> real \<Rightarrow> exn + plot_call" where
  "ax_plot x y lbl color alpha linewidth =
     (if length x \<noteq> length y
      then Inl (ValueError ''x and y must have same first dimension'')
      else Inr \<lparr>pc_x = x, pc_y = y, pc_label = lbl, pc_color = color,
                pc_alpha = alpha, pc_linewidth = linewidth\<rparr>)"

text \<open>
  The lines drawn for one record, given its resolved colour. An exception of
  \<open>smooth_values\<close> or of \<open>ax.plot\<close> leaves \<open>create_visualization\<close>.
\<close>

definition draw_lines :: "vis_options \<Rightarrow> series_record \<Rightarrow> string \<Rightarrow> exn + plot_call list" where
  "draw_lines opts run_data run_color =
     (let x_data = x_data_of opts run_data;
          vals = sr_values run_data;
          run_name = sr_run_name run_data
      in if truthy (smooth_method opts) \<and> show_raw_and_smooth opts then
           (case ax_plot x_data vals ''_nolegend_'' run_color 0.35 1.0 of
              Inl e \<Rightarrow> Inl e
            | Inr raw_line \<Rightarrow>
                (case smooth_values vals (the (smooth_method opts)) (smooth_window opts) of
                   Inl e \<Rightarrow> Inl e
                 | Inr smooth_values_arr \<Rightarrow>
                     (case ax_plot x_data smooth_values_arr run_name (pc_color raw_line) 0.9 1.6 of
                        Inl e \<Rightarrow> Inl e
                      | Inr smooth_line \<Rightarrow> Inr [raw_line, smooth_line])))
         else
           (case (if truthy (smooth_method opts)
                  then smooth_values vals (the (smooth_method opts)) (smooth_window opts)
                  else Inr vals) of
              Inl e \<Rightarrow> Inl e
            | Inr vals' \<Rightarrow>
                (case ax_plot x_data vals' run_name run_color 0.8 1.5 of
                   Inl e \<Rightarrow> Inl e
                 | Inr line \<Rightarrow> Inr [line])))"

text \<open>The loop over \<open>runs_data\<close> of one subplot.\<close>

fun draw_runs ::
  "vis_options \<Rightarrow> string list \<Rightarrow> series_record list \<Rightarrow> color_state \<Rightarrow> plot_call list
   \<Rightarrow> exn + plot_call list \<times> color_state" where
  "draw_runs opts colors [] cs lines = Inr (lines, cs)"
| "draw_runs opts colors (run_data # rest) cs lines =
     (let (run_color, cs') = resolve_color colors cs (sr_run_name run_data)
      in case draw_lines opts run_data run_color of
           Inl e \<Rightarrow> Inl e
         | Inr new \<Rightarrow> draw_runs opts colors rest cs' (lines @ new))"

text \<open>
  The subplot at \<open>gs[row, col]\<close> once its lines are drawn and its title and labels are
  set.
\<close>

definition finish_subplot ::
  "vis_options \<Rightarrow> int \<Rightarrow> nat \<Rightarrow> string \<Rightarrow> plot_call list \<Rightarrow> subplot" where
  "finish_subplot opts n_cols idx metric_name lines =
     \<lparr>sp_row = int idx div n_cols, sp_col = int idx mod n_cols,
      sp_lines = lines, sp_title = metric_name,
      sp_xlabel = (if x_axis opts = ''walltime'' then ''Wall Time (hours)'' else ''Step''),
      sp_ylabel = ''Value''\<rparr>"

text \<open>The loop over \<open>enumerate(sorted(data.items()))\<close>.\<close>

fun draw_metrics ::
  "vis_options \<Rightarrow> string list \<Rightarrow> int \<Rightarrow> (nat \<times> string \<times> series_record list) list
   \<Rightarrow> color_state \<Rightarrow> subplot list \<Rightarrow> exn + subplot list \<times> color_state" where
  "draw_metrics opts colors n_cols [] cs axes = Inr (axes, cs)"
| "draw_metrics opts colors n_cols ((idx, metric_name, runs_data) # rest) cs axes =
     (case draw_runs opts colors runs_data cs [] of
        Inl e \<Rightarrow> Inl e
      | Inr (lines, cs') \<Rightarrow>
          draw_metrics opts colors n_cols rest cs'
            (axes @ [finish_subplot opts n_cols idx metric_name lines]))"

text \<open>\<open>sorted(data.items())\<close>: the keys of a dictionary are distinct, so the order is theirs.\<close>

definition sorted_items :: "collection \<Rightarrow> (string \<times> series_record list) list" where
  "sorted_items data = sort_key fst data"

text \<open>
  \<open>create_visualization\<close>: the layout, \<open>plt.figure\<close> (which raises on a negative
  size), \<open>GridSpec\<close> (which raises unless both counts are positive), then the
  subplots.
\<close>

definition create_visualization ::
  "string list option \<Rightarrow> collection \<Rightarrow> vis_options \<Rightarrow> exn + outcome" where
  "create_visualization rc_colors data opts =
     (if data = [] then Inr No_data
      else
        let n_metrics = int (length data);
            n_cols = min n_metrics (max_cols opts)
        in if n_cols = 0 then Inl ZeroDivisionError
           else
             let n_rows = (n_metrics + n_cols - 1) div n_cols;
                 fig_width = fst (figsize_per_plot opts) * real_of_int n_cols;
                 fig_height = snd (figsize_per_plot opts) * real_of_int n_rows;
                 colors = palette rc_colors
             in if fig_width < 0 \<or> fig_height < 0
                then Inl (ValueError ''figure size must be positive finite'')
                else if n_rows \<le> 0 \<or> n_cols \<le> 0
                then Inl (ValueError ''Number of rows and columns must be a positive integer'')
                else
                  case draw_metrics opts colors n_cols (enumerate 0 (sorted_items data))
                         \<lparr>color_pos = 0, run_color_map = Map.empty\<rparr> [] of
                    Inl e \<Rightarrow> Inl e
                  | Inr (axes, cs) \<Rightarrow>
                      Inr (Saved \<lparr>fig_width = fig_width, fig_height = fig_height,
                                  fig_rows = n_rows, fig_cols = n_cols, fig_axes = axes,
                                  fig_suptitle = ''TensorBoard Metrics Visualization'',
                                  fig_saved_to = output_path opts\<rparr>))"

text \<open>
  The colour of a run identifier in the words of the specification: the identifiers
  take the colours of the palette, cyclically, in the order in which they are first
  drawn. \<open>names\<close> are the run identifiers of the figure's records in drawing order.
\<close>

definition assigned_color :: "string list \<Rightarrow> string list \<Rightarrow> string \<Rightarrow> string" where
  "assigned_color colors names run_name =
     colors ! (length (remdups (takeWhile (\<lambda>n. n \<noteq> run_name) names)) mod length colors)"

definition drawn_names :: "collection \<Rightarrow> string list" where
  "drawn_names data = concat (map (\<lambda>(metric_name, runs_data). map sr_run_name runs_data) (sorted_items data))"

text \<open>
  The two curves of show-both mode for one record: the raw one first, then the smoothed
  one in the same colour.
\<close>

definition raw_then_smooth :: "vis_options \<Rightarrow> series_record \<Rightarrow> plot_call \<Rightarrow> plot_call \<Rightarrow> bool" where
  "raw_then_smooth opts r raw sm \<longleftrightarrow>
     pc_y raw = sr_values r \<and> pc_label raw = ''_nolegend_'' \<and>
     pc_alpha raw = 0.35 \<and> pc_linewidth raw = 1 \<and>
     smooth_values (sr_values r) (the (smooth_method opts)) (smooth_window opts) = Inr (pc_y sm) \<and>
     pc_label sm = sr_run_name r \<and> pc_color sm = pc_color raw \<and> pc_x sm = pc_x raw \<and>
     pc_alpha sm = 0.9 \<and> pc_linewidth sm = 1.6"


section \<open>Auxiliary notions for the proofs\<close>

text \<open>
  The events of a tag that survive the bound, and the record built from them: used to
  say where a stored record comes from.
\<close>

definition kept_events :: "int option \<Rightarrow> event list \<Rightarrow> event list" where
  "kept_events max_step events =
     (case max_step of None \<Rightarrow> events | Some m \<Rightarrow> filter (\<lambda>e. ev_step e \<le> m) events)"

definition record_of_events :: "string \<Rightarrow> string \<Rightarrow> event list \<Rightarrow> series_record" where
  "record_of_events run_name tb_file events =
     \<lparr>sr_steps = map ev_step events, sr_values = map ev_value events,
      sr_walltimes = map ev_wall_time events,
      sr_run_name = run_name, sr_file_path = tb_file\<rparr>"

text \<open>
  The lines of one subplot when the colour of a record is the value of the function
  \<open>c\<close> at its run identifier.
\<close>

fun draw_with_colors ::
  "vis_options \<Rightarrow> (string \<Rightarrow> string) \<Rightarrow> series_record list \<Rightarrow> exn + plot_call list" where
  "draw_with_colors opts c [] = Inr []"
| "draw_with_colors opts c (r # rs) =
     (case draw_lines opts r (c (sr_run_name r)) of
        Inl e \<Rightarrow> Inl e
      | Inr new \<Rightarrow>
          (case draw_with_colors opts c rs of
             Inl e \<Rightarrow> Inl e
           | Inr others \<Rightarrow> Inr (new @ others)))"

text \<open>
  The state of the colour assignment after the run identifiers \<open>seen\<close> have been drawn,
  in that order.
\<close>

definition color_inv :: "string list \<Rightarrow> string list \<Rightarrow> color_state \<Rightarrow> bool" where
  "color_inv colors seen cs \<longleftrightarrow>
     color_pos cs = length (remdups seen) \<and>
     (\<forall>n. run_color_map cs n =
            (if n \<in> set seen then Some (assigned_color colors seen n) else None))"

section \<open>A concrete scenario\<close>

text \<open>
  Event logs used to run the theorems below on concrete inputs: the first holds a tag
  that the bound \<open>5\<close> cuts and one that it empties, the second cannot be opened, the
  third lies outside the root and fails while its second tag is read, the fourth
  shares its directory with the first. No other path resolves.
\<close>

definition demo_resolve :: "string \<Rightarrow> exn + path" where
  "demo_resolve p =
     (if p = ''/logs/run1/ev.1'' then Inr [''logs'', ''run1'', ''ev.1'']
      else if p = ''/logs/run2/ev.2'' then Inr [''logs'', ''run2'', ''ev.2'']
      else if p = ''/data/x/ev.3'' then Inr [''data'', ''x'', ''ev.3'']
      else if p = ''/logs/run1/ev.4'' then Inr [''logs'', ''run1'', ''ev.4'']
      else if p = ''/logs'' then Inr [''logs'']
      else Inl (Other ''Symlink loop''))"

definition demo_open :: "string \<Rightarrow> exn + accumulator" where
  "demo_open f =
     (if f = ''/logs/run1/ev.1'' then
        Inr [(''loss'', Inr [\<lparr>ev_step = 0, ev_value = 4, ev_wall_time = 100\<rparr>,
                            \<lparr>ev_step = 3, ev_value = 2, ev_wall_time = 160\<rparr>,
                            \<lparr>ev_step = 6, ev_value = 1, ev_wall_time = 220\<rparr>,
                            \<lparr>ev_step = 9, ev_value = 1, ev_wall_time = 280\<rparr>]),
             (''lr'', Inr [\<lparr>ev_step = 7, ev_value = 1, ev_wall_time = 230\<rparr>])]
      else if f = ''/data/x/ev.3'' then
        Inr [(''loss'', Inr [\<lparr>ev_step = 1, ev_value = 5, ev_wall_time = 10\<rparr>]),
             (''acc'', Inl (Other ''truncated record''))]
      else if f = ''/logs/run1/ev.4'' then
        Inr [(''loss'', Inr [\<lparr>ev_step = 2, ev_value = 3, ev_wall_time = 500\<rparr>])]
      else Inl (Other ''not an event file''))"

definition demo_env :: env where
  "demo_env = \<lparr>resolve_path = demo_resolve, ea_open = demo_open\<rparr>"

definition demo_files :: "string list" where
  "demo_files = [''/logs/run1/ev.1'', ''/logs/run2/ev.2'', ''/data/x/ev.3'', ''/logs/run1/ev.4'']"

definition demo_record :: "string \<Rightarrow> real list \<Rightarrow> series_record" where
  "demo_record run_name vals =
     \<lparr>sr_steps = map int [0..<length vals], sr_values = vals,
      sr_walltimes = map (\<lambda>i. 60 * real i) [0..<length vals],
      sr_run_name = run_name, sr_file_path = ''/logs/'' @ run_name @ ''/ev''\<rparr>"

definition demo_data :: collection where
  "demo_data =
     [(''loss'', [demo_record ''a'' [4, 2, 6], demo_record ''b'' [1, 3]]),
      (''acc'', [demo_record ''b'' [2, 4], demo_record ''a'' [5]])]"

definition demo_options :: vis_options where
  "demo_options =
     \<lparr>output_path = ''out.png'', figsize_per_plot = (8, 4), max_cols = 3, show_fig = False,
      smooth_method = Some ''ema'', smooth_window = Some 3, show_raw_and_smooth = True,
      x_axis = ''step''\<rparr>"

text \<open>
  A run of three observations, and the options \<open>--smooth ma --show-both\<close> with the
  default window of ten.
\<close>

definition short_data :: collection where
  "short_data = [(''loss'', [demo_record ''run1'' [1, 2, 3]])]"

definition ma_options :: vis_options where
  "ma_options =
     \<lparr>output_path = ''out.png'', figsize_per_plot = (8, 4), max_cols = 3, show_fig = False,
      smooth_method = Some ''ma'', smooth_window = Some 10, show_raw_and_smooth = True,
      x_axis = ''step''\<rparr>"

text \<open>What \<open>create_visualization\<close> draws for \<open>demo_data\<close> with \<open>demo_options\<close>.\<close>

definition demo_figure :: figure where
  "demo_figure =
     \<lparr>fig_width = 16, fig_height = 4, fig_rows = 1, fig_cols = 2,
      fig_axes =
        [\<lparr>sp_row = 0, sp_col = 0,
          sp_lines =
            [\<lparr>pc_x = [0, 1], pc_y = [2, 4], pc_label = ''_nolegend_'',
              pc_color = ''#1f77b4'', pc_alpha = 0.35, pc_linewidth = 1\<rparr>,
             \<lparr>pc_x = [0, 1], pc_y = [2, 3], pc_label = ''b'',
              pc_color = ''#1f77b4'', pc_alpha = 0.9, pc_linewidth = 1.6\<rparr>,
             \<lparr>pc_x = [0], pc_y = [5], pc_label = ''_nolegend_'',
              pc_color = ''#ff7f0e'', pc_alpha = 0.35, pc_linewidth = 1\<rparr>,
             \<lparr>pc_x = [0], pc_y = [5], pc_label = ''a'',
              pc_color = ''#ff7f0e'', pc_alpha = 0.9, pc_linewidth = 1.6\<rparr>],
          sp_title = ''acc'', sp_xlabel = ''Step'', sp_ylabel = ''Value''\<rparr>,
         \<lparr>sp_row = 0, sp_col = 1,
          sp_lines =
            [\<lparr>pc_x = [0, 1, 2], pc_y = [4, 2, 6], pc_label = ''_nolegend_'',
              pc_color = ''#ff7f0e'', pc_alpha = 0.35, pc_linewidth = 1\<rparr>,
             \<lparr>pc_x = [0, 1, 2], pc_y = [4, 3, 9 / 2], pc_label = ''a'',
              pc_color = ''#ff7f0e'', pc_alpha = 0.9, pc_linewidth = 1.6\<rparr>,
             \<lparr>pc_x = [0, 1], pc_y = [1, 3], pc_label = ''_nolegend_'',
              pc_color = ''#1f77b4'', pc_alpha = 0.35, pc_linewidth = 1\<rparr>,
             \<lparr>pc_x = [0, 1], pc_y = [1, 2], pc_label = ''b'',
              pc_color = ''#1f77b4'', pc_alpha = 0.9, pc_linewidth = 1.6\<rparr>],
          sp_title = ''loss'', sp_xlabel = ''Step'', sp_ylabel = ''Value''\<rparr>],
      fig_suptitle = ''TensorBoard Metrics Visualization'',
      fig_saved_to = ''out.png''\<rparr>"

section \<open>Properties of the Smoothing Engine\<close>

lemma ema_loop_length: "length (ema_loop alpha v i s) = length s"
  by (induction alpha v i s rule: ema_loop.induct) (subst ema_loop.simps, simp)

text \<open>The loop leaves the cells below its index alone.\<close>

lemma ema_loop_below: "j < i \<Longrightarrow> ema_loop alpha v i s ! j = s ! j"
proof (induction alpha v i s rule: ema_loop.induct)
  case (1 alpha v i s)
  show ?case
  proof (cases "i < length v")
    case True
    have "ema_loop alpha v i s ! j =
          ema_loop alpha v (Suc i) (s[i := alpha * v ! i + (1 - alpha) * s ! (i - 1)]) ! j"
      by (subst ema_loop.simps) (simp add: True)
    also have "\<dots> = (s[i := alpha * v ! i + (1 - alpha) * s ! (i - 1)]) ! j"
      using "1.IH" [OF True] "1.prems" by simp
    also have "\<dots> = s ! j" using "1.prems" by simp
    finally show ?thesis .
  next
    case False
    then show ?thesis by (subst ema_loop.simps) simp
  qed
qed

text \<open>Every cell from the loop's index on satisfies the recurrence.\<close>

lemma ema_loop_step:
  "1 \<le> i \<Longrightarrow> i \<le> j \<Longrightarrow> j < length v \<Longrightarrow> length s = length v \<Longrightarrow>
   ema_loop alpha v i s ! j = alpha * v ! j + (1 - alpha) * ema_loop alpha v i s ! (j - 1)"
proof (induction alpha v i s rule: ema_loop.induct)
  case (1 alpha v i s)
  let ?s' = "s[i := alpha * v ! i + (1 - alpha) * s ! (i - 1)]"
  have il: "i < length v" using "1.prems" by simp
  have unf: "ema_loop alpha v i s = ema_loop alpha v (Suc i) ?s'"
    by (subst ema_loop.simps) (simp add: il)
  show ?case
  proof (cases "i = j")
    case True
    have "ema_loop alpha v (Suc i) ?s' ! j = ?s' ! j"
      using True by (simp add: ema_loop_below)
    moreover have "ema_loop alpha v (Suc i) ?s' ! (j - 1) = ?s' ! (j - 1)"
      using True "1.prems" by (simp add: ema_loop_below)
    moreover have "?s' ! j = alpha * v ! j + (1 - alpha) * s ! (j - 1)"
      using True "1.prems" by simp
    moreover have "?s' ! (j - 1) = s ! (j - 1)"
      using True "1.prems" by simp
    ultimately show ?thesis unfolding unf by simp
  next
    case False
    then have "Suc i \<le> j" using "1.prems" by simp
    then show ?thesis unfolding unf
      using "1.IH" [OF il] "1.prems" by simp
  qed
qed

text \<open>The result depends only on the cells below the loop's index.\<close>

lemma ema_loop_agree:
  "length s = length v \<Longrightarrow> length s' = length v \<Longrightarrow> 1 \<le> i \<Longrightarrow>
   (\<forall>j < i. s ! j = s' ! j) \<Longrightarrow> ema_loop alpha v i s = ema_loop alpha v i s'"
proof (induction alpha v i s arbitrary: s' rule: ema_loop.induct)
  case (1 alpha v i s)
  show ?case
  proof (cases "i < length v")
    case True
    let ?x = "alpha * v ! i + (1 - alpha) * s ! (i - 1)"
    have same: "s' ! (i - 1) = s ! (i - 1)" using "1.prems" by simp
    have "\<forall>j < Suc i. (s[i := ?x]) ! j = (s'[i := ?x]) ! j"
      using "1.prems" True by (simp add: nth_list_update less_Suc_eq)
    then have "ema_loop alpha v (Suc i) (s[i := ?x]) = ema_loop alpha v (Suc i) (s'[i := ?x])"
      using "1.IH" [OF True, of "s'[i := ?x]"] "1.prems" by simp
    moreover have "ema_loop alpha v i s = ema_loop alpha v (Suc i) (s[i := ?x])"
      by (subst ema_loop.simps) (simp add: True)
    moreover have "ema_loop alpha v i s' = ema_loop alpha v (Suc i) (s'[i := ?x])"
      using same by (subst ema_loop.simps) (simp add: True)
    ultimately show ?thesis by simp
  next
    case False
    have "s = s'"
      using "1.prems" False by (intro nth_equalityI) auto
    then show ?thesis by simp
  qed
qed

text \<open>So the content of the uninitialised array does not matter.\<close>

lemma ema_loop_init:
  "length s = length v \<Longrightarrow> length s' = length v \<Longrightarrow> v \<noteq> [] \<Longrightarrow>
   ema_loop alpha v 1 (s[0 := x]) = ema_loop alpha v 1 (s'[0 := x])"
  by (rule ema_loop_agree) auto

lemma py_float_small: "- float_overflow_bound < n \<Longrightarrow> n < float_overflow_bound \<Longrightarrow> py_float n = Inr (real_of_int n)"
  by (simp add: py_float_def)

lemma py_float_large: "float_overflow_bound \<le> n \<Longrightarrow> py_float n = Inl OverflowError"
  by (simp add: py_float_def)

lemma float_overflow_bound_pos: "1 < float_overflow_bound"
  by (simp add: float_overflow_bound_def)

lemma py_float_window: "1 < w \<Longrightarrow> w < float_overflow_bound \<Longrightarrow> py_float w = Inr (real_of_int w)"
  using float_overflow_bound_pos by (intro py_float_small) simp_all

lemma smooth_values_not_ma:
  assumes "method \<noteq> ''ma''" "1 < w" "w < float_overflow_bound"
  shows "\<exists>out. smooth_values v method (Some w) = Inr out \<and> is_ema (2 / (real_of_int w + 1)) v out"
proof (cases "v = []")
  case True
  then show ?thesis using assms by (simp add: smooth_values_def is_ema_def py_float_window)
next
  case False
  let ?a = "2 / (real_of_int w + 1)"
  let ?out = "ema_loop ?a v 1 ((np_empty_like v)[0 := v ! 0])"
  have len: "length ((np_empty_like v)[0 := v ! 0]) = length v"
    by (simp add: np_empty_like_def)
  have len0: "length (np_empty_like v) = length v"
    by (simp add: np_empty_like_def)
  have eq: "smooth_values v method (Some w) = Inr ?out"
    using assms False by (simp add: smooth_values_def Let_def py_float_window)
  have "?out ! 0 = v ! 0"
    using False by (simp add: ema_loop_below np_empty_like_def)
  moreover have "length ?out = length v"
    by (simp add: ema_loop_length len0)
  moreover have "\<forall>i \<in> {1..<length v}. ?out ! i = ?a * v ! i + (1 - ?a) * ?out ! (i - 1)"
    using ema_loop_step [OF _ _ _ len, of 1] by simp
  ultimately have "is_ema ?a v ?out" by (simp add: is_ema_def)
  with eq show ?thesis by blast
qed

text \<open>A window that \<open>float\<close> cannot convert ends both methods with \<open>OverflowError\<close>.\<close>

lemma smooth_values_overflow:
  assumes "float_overflow_bound \<le> w"
  shows "smooth_values v method (Some w) = Inl OverflowError"
proof -
  have "\<not> w \<le> 1" using assms float_overflow_bound_pos by simp
  then show ?thesis using assms by (simp add: smooth_values_def py_float_large)
qed

lemma conv_full_length: "length (conv_full a v) = length a + length v - 1"
  by (simp add: conv_full_def)

text \<open>The "same" mode returns as many cells as the longer argument has.\<close>

lemma np_convolve_same_length:
  "a \<noteq> [] \<Longrightarrow> v \<noteq> [] \<Longrightarrow>
   \<exists>out. np_convolve_same a v = Inr out \<and> length out = max (length a) (length v)"
  by (cases a; cases v) (auto simp: np_convolve_same_def conv_full_length Let_def)

lemma smooth_values_ma_length:
  assumes "v \<noteq> []" "1 < w" "w < float_overflow_bound"
  shows "\<exists>out. smooth_values v ''ma'' (Some w) = Inr out \<and> length out = max (length v) (nat w)"
proof -
  have "ma_kernel w (real_of_int w) \<noteq> []" using assms by (simp add: ma_kernel_def)
  from np_convolve_same_length [OF assms(1) this]
  show ?thesis using assms by (simp add: smooth_values_def ma_kernel_def py_float_window)
qed

text \<open>
  Claim C1 says that for a non-empty sequence, a window above one and either method the
  result is as long as the input. For the exponential method it is
  (\<open>smooth_values_not_ma\<close>). For the moving average it is as long as the longer of the
  input and the kernel (\<open>smooth_values_ma_length\<close>): three values smoothed with the
  default window of ten come back as ten.
\<close>

theorem smooth_values_ma_short_input:
  "smooth_values [1, 2, 3] ''ma'' (Some 10)
     = Inr [3/10, 3/5, 3/5, 3/5, 3/5, 3/5, 3/5, 3/5, 3/5, 1/2] \<and>
   length [3/10, 3/5, 3/5, 3/5, 3/5, 3/5, 3/5, 3/5, 3/5, 1/2 :: real] \<noteq> length [1, 2, 3 :: real]"
proof -
  have "py_float 10 = Inr 10"
    by (simp add: py_float_def float_overflow_bound_def)
  then show ?thesis
    by (simp add: smooth_values_def np_convolve_same_def ma_kernel_def conv_full_def
          upt_conv_Cons nth_Cons')
qed

text \<open>
  Claim C4, as stated for every window \<open>w > 1\<close>, fails where \<open>float(window)\<close>
  overflows: the call raises \<open>OverflowError\<close> and there is no output.
\<close>

theorem smooth_values_ema_overflow:
  "smooth_values [4, 2, 6] ''ema'' (Some (2 ^ 1024)) = Inl OverflowError"
proof -
  have "float_overflow_bound \<le> 2 ^ 1024" by (simp add: float_overflow_bound_def)
  then show ?thesis by (rule smooth_values_overflow)
qed

text \<open>
  Claim C4, amended: for a non-empty sequence \<open>v\<close> and a window \<open>w > 1\<close> that
  \<open>float\<close> converts (\<open>w < 2^1024 - 2^970\<close>), the result \<open>out\<close> of the method \<open>"ema"\<close>
  has \<open>out[0] = v[0]\<close> and, for every \<open>i \<ge> 1\<close>,
  \<open>out[i] = alpha * v[i] + (1 - alpha) * out[i-1]\<close> with \<open>alpha = 2 / (w + 1)\<close>; for a
  larger window the call raises \<open>OverflowError\<close>.
\<close>

theorem smooth_values_ema_recurrence:
  assumes "v \<noteq> []" "1 < w"
  shows "(w < float_overflow_bound \<longrightarrow>
           (\<exists>out. smooth_values v ''ema'' (Some w) = Inr out \<and> length out = length v \<and>
              out ! 0 = v ! 0 \<and>
              (\<forall>i. 1 \<le> i \<and> i < length v \<longrightarrow>
                   out ! i = 2 / (real_of_int w + 1) * v ! i
                             + (1 - 2 / (real_of_int w + 1)) * out ! (i - 1)))) \<and>
         (float_overflow_bound \<le> w \<longrightarrow> smooth_values v ''ema'' (Some w) = Inl OverflowError)"
proof (intro conjI impI)
  assume b: "w < float_overflow_bound"
  have "''ema'' \<noteq> ''ma''" by simp
  from smooth_values_not_ma [OF this assms(2) b, of v]
  obtain out where "smooth_values v ''ema'' (Some w) = Inr out"
    and "is_ema (2 / (real_of_int w + 1)) v out" by blast
  then show "\<exists>out. smooth_values v ''ema'' (Some w) = Inr out \<and> length out = length v \<and>
              out ! 0 = v ! 0 \<and>
              (\<forall>i. 1 \<le> i \<and> i < length v \<longrightarrow>
                   out ! i = 2 / (real_of_int w + 1) * v ! i
                             + (1 - 2 / (real_of_int w + 1)) * out ! (i - 1))"
    using assms(1) by (auto simp: is_ema_def)
next
  assume "float_overflow_bound \<le> w"
  then show "smooth_values v ''ema'' (Some w) = Inl OverflowError"
    by (rule smooth_values_overflow)
qed

theorem smooth_values_ema_recurrence_witness:
  "[4, 2, 6] \<noteq> ([] :: real list) \<and> (1 :: int) < 3 \<and> (3 :: int) < float_overflow_bound \<and>
   (\<exists>out. smooth_values [4, 2, 6] ''ema'' (Some 3) = Inr out \<and> length out = 3 \<and>
          out ! 0 = 4 \<and> out ! 1 = 3 \<and> out ! 2 = 9 / 2)"
proof -
  have h1: "[4, 2, 6] \<noteq> ([] :: real list)" and h2: "(1 :: int) < 3" by simp_all
  have h3: "(3 :: int) < float_overflow_bound"
    by (simp add: float_overflow_bound_def)
  from smooth_values_ema_recurrence [OF h1 h2] h3
  obtain out where o: "smooth_values [4, 2, 6] ''ema'' (Some 3) = Inr out"
    and l: "length out = 3" and z: "out ! 0 = 4"
    and st: "\<forall>i. 1 \<le> i \<and> i < 3 \<longrightarrow>
               out ! i = 2 / (real_of_int 3 + 1) * [4, 2, 6] ! i
                         + (1 - 2 / (real_of_int 3 + 1)) * out ! (i - 1)"
    by auto
  from st [rule_format, of 1] z have o1: "out ! 1 = 3" by simp
  from st [rule_format, of 2] o1 have "out ! 2 = 9 / 2" by simp
  with o l z o1 h3 show ?thesis by simp
qed

text \<open>
  Claim C8: whatever the method, \<open>smooth_values\<close> returns its input unchanged when the
  window is \<open>None\<close> or at most one.
\<close>

theorem smooth_values_identity:
  "(case window of None \<Rightarrow> True | Some w \<Rightarrow> w \<le> 1) \<Longrightarrow> smooth_values v method window = Inr v"
  by (simp add: smooth_values_def split: option.splits)

theorem smooth_values_identity_witness:
  "(case Some (1 :: int) of None \<Rightarrow> True | Some w \<Rightarrow> w \<le> 1) \<and>
   smooth_values [3, 1, 2] ''ma'' (Some 1) = Inr [3, 1, 2] \<and>
   smooth_values [3, 1, 2] ''ema'' None = Inr [3, 1, 2]"
  using smooth_values_identity [of "Some 1" "[3, 1, 2]" "''ma''"]
    smooth_values_identity [of None "[3, 1, 2]" "''ema''"]
  by simp

text \<open>
  Claim C10, as stated for every window \<open>w > 1\<close>, fails where \<open>float(window)\<close>
  overflows: a method that is not recognised is then not smoothed exponentially, the
  call raises \<open>OverflowError\<close>.
\<close>

theorem smooth_values_unknown_method_overflow:
  "smooth_values [4, 2, 6] ''median'' (Some (2 ^ 1024)) = Inl OverflowError \<and>
   ''median'' \<noteq> ''ma'' \<and> (1 :: int) < 2 ^ 1024"
proof -
  have "float_overflow_bound \<le> 2 ^ 1024" by (simp add: float_overflow_bound_def)
  then have "smooth_values [4, 2, 6] ''median'' (Some (2 ^ 1024)) = Inl OverflowError"
    by (rule smooth_values_overflow)
  then show ?thesis by simp
qed

text \<open>
  Claim C10, amended: with a window \<open>w > 1\<close>, every method other than the string
  \<open>"ma"\<close>, a method that is not recognised included, does what \<open>"ema"\<close> does: where
  \<open>float\<close> converts the window (\<open>w < 2^1024 - 2^970\<close>) the method is not rejected and
  the result satisfies the exponential recurrence, and for a larger window the call
  raises \<open>OverflowError\<close>.
\<close>

theorem smooth_values_unknown_method_is_ema:
  assumes "method \<noteq> ''ma''" "1 < w"
  shows "smooth_values v method (Some w) = smooth_values v ''ema'' (Some w) \<and>
         (w < float_overflow_bound \<longrightarrow>
            (\<exists>out. smooth_values v method (Some w) = Inr out \<and>
                   is_ema (2 / (real_of_int w + 1)) v out)) \<and>
         (float_overflow_bound \<le> w \<longrightarrow> smooth_values v method (Some w) = Inl OverflowError)"
proof (intro conjI impI)
  show "smooth_values v method (Some w) = smooth_values v ''ema'' (Some w)"
    using assms by (simp add: smooth_values_def)
next
  assume "w < float_overflow_bound"
  from smooth_values_not_ma [OF assms this, of v]
  show "\<exists>out. smooth_values v method (Some w) = Inr out \<and> is_ema (2 / (real_of_int w + 1)) v out" .
next
  assume "float_overflow_bound \<le> w"
  then show "smooth_values v method (Some w) = Inl OverflowError"
    by (rule smooth_values_overflow)
qed

theorem smooth_values_unknown_method_is_ema_witness:
  "''median'' \<noteq> ''ma'' \<and> (1 :: int) < 3 \<and> (3 :: int) < float_overflow_bound \<and>
   smooth_values [4, 2, 6] ''median'' (Some 3) = smooth_values [4, 2, 6] ''ema'' (Some 3) \<and>
   (\<exists>out. smooth_values [4, 2, 6] ''median'' (Some 3) = Inr out \<and> length out = 3 \<and> out ! 0 = 4)"
proof -
  have h1: "''median'' \<noteq> ''ma''" and h2: "(1 :: int) < 3" by simp_all
  have h3: "(3 :: int) < float_overflow_bound"
    by (simp add: float_overflow_bound_def)
  from smooth_values_unknown_method_is_ema [OF h1 h2, of "[4, 2, 6]"] h3
  obtain out where e: "smooth_values [4, 2, 6] ''median'' (Some 3) = smooth_values [4, 2, 6] ''ema'' (Some 3)"
    and o: "smooth_values [4, 2, 6] ''median'' (Some 3) = Inr out"
    and i: "is_ema (2 / (real_of_int 3 + 1)) [4, 2, 6] out"
    by blast
  from i have "length out = 3 \<and> out ! 0 = 4" by (simp add: is_ema_def)
  with e o h1 h2 h3 show ?thesis by blast
qed

section \<open>Properties of the Series Merger\<close>

lemma tagged_records_append:
  "set (tagged_records (append_record d t r)) = insert (t, r) (set (tagged_records d))"
  by (induction d t r rule: append_record.induct) (auto simp: tagged_records_def)

lemma records_of_append:
  "records_of (append_record d t r) t' =
     (if t' = t then records_of d t @ [r] else records_of d t')"
  by (induction d t r rule: append_record.induct) (auto simp: records_of_def)

lemma filter_zip_events:
  "filter (\<lambda>(s, v, w). s \<le> m)
     (zip (map ev_step evs) (zip (map ev_value evs) (map ev_wall_time evs)))
   = map (\<lambda>e. (ev_step e, ev_value e, ev_wall_time e)) (filter (\<lambda>e. ev_step e \<le> m) evs)"
  by (induction evs) auto

lemma load_tags_Inr:
  "load_tags m rn f ((t, Inr evs) # rest) data =
     (if kept_events m evs \<noteq> []
      then load_tags m rn f rest (append_record data t (record_of_events rn f (kept_events m evs)))
      else load_tags m rn f rest data)"
  by (cases m)
     (auto simp: kept_events_def record_of_events_def filter_zip_events Let_def comp_def
           simp del: filter.simps)

lemma load_tags_new:
  "(t, r) \<in> set (tagged_records (fst (load_tags m rn f tags data))) \<Longrightarrow>
   (t, r) \<in> set (tagged_records data) \<or>
   (\<exists>evs. (t, Inr evs) \<in> set tags \<and> kept_events m evs \<noteq> [] \<and>
          r = record_of_events rn f (kept_events m evs))"
proof (induction tags arbitrary: data)
  case Nil
  then show ?case by simp
next
  case (Cons a tags)
  obtain tg res where a: "a = (tg, res)" by (cases a)
  show ?case
  proof (cases res)
    case (Inl e)
    with Cons.prems a show ?thesis by simp
  next
    case (Inr evs)
    show ?thesis
    proof (cases "kept_events m evs \<noteq> []")
      case True
      with Cons.prems a Inr
      have "(t, r) \<in> set (tagged_records (fst (load_tags m rn f tags
              (append_record data tg (record_of_events rn f (kept_events m evs))))))"
        by (simp add: load_tags_Inr del: load_tags.simps)
      from Cons.IH [OF this] show ?thesis
        using True a Inr by (auto simp: tagged_records_append)
    next
      case False
      with Cons.prems a Inr
      have "(t, r) \<in> set (tagged_records (fst (load_tags m rn f tags data)))"
        by (simp add: load_tags_Inr del: load_tags.simps)
      from Cons.IH [OF this] show ?thesis by auto
    qed
  qed
qed

lemma resolve_Inr: "resolve_path fs p = Inr q \<Longrightarrow> resolve fs p = q"
  by (simp add: resolve_def)

lemma resolve_all_Inr:
  "resolve_all fs ds = Inr ps \<Longrightarrow>
   ps = map (resolve fs) ds \<and> (\<forall>d \<in> set ds. resolve_path fs d = Inr (resolve fs d))"
proof (induction ds arbitrary: ps)
  case Nil
  then show ?case by simp
next
  case (Cons d ds)
  from Cons.prems obtain p ps' where p: "resolve_path fs d = Inr p"
    and r: "resolve_all fs ds = Inr ps'" and ps: "ps = p # ps'"
    by (auto split: sum.splits)
  from p have "resolve fs d = p" by (rule resolve_Inr)
  with Cons.IH [OF r] p ps show ?case by simp
qed

text \<open>The three ways a round of the loop can go.\<close>

lemma load_file_raised: "ld_raised st \<noteq> None \<Longrightarrow> load_file fs bp m st f = st"
  by (simp add: load_file_def)

lemma load_file_unresolved:
  "ld_raised st = None \<Longrightarrow> resolve_path fs f = Inl e \<Longrightarrow>
   load_file fs bp m st f =
     \<lparr>ld_data = ld_data st, ld_stdout = ld_stdout st @ [''Loading: '' @ f], ld_raised = Some e\<rparr>"
  by (simp add: load_file_def)

lemma load_file_resolved:
  assumes "ld_raised st = None" "resolve_path fs f = Inr p"
  shows "load_file fs bp m st f =
     (case ea_open fs f of
        Inl e \<Rightarrow>
          \<lparr>ld_data = ld_data st,
           ld_stdout = ld_stdout st @ [''Loading: '' @ f]
                         @ [''Failed to load file '' @ f @ '': '' @ exn_str e],
           ld_raised = None\<rparr>
      | Inr ea \<Rightarrow>
          \<lparr>ld_data = fst (load_tags m (compute_run_name (parent p) bp) f ea (ld_data st)),
           ld_stdout = ld_stdout st @ [''Loading: '' @ f]
                         @ (case snd (load_tags m (compute_run_name (parent p) bp) f ea (ld_data st)) of
                              None \<Rightarrow> []
                            | Some e \<Rightarrow> [''Failed to load file '' @ f @ '': '' @ exn_str e]),
           ld_raised = None\<rparr>)"
proof (cases "ea_open fs f")
  case (Inl e)
  with assms show ?thesis unfolding load_file_def Let_def by simp
next
  case (Inr ea)
  obtain d x where l: "load_tags m (compute_run_name (parent p) bp) f ea (ld_data st) = (d, x)"
    by (cases "load_tags m (compute_run_name (parent p) bp) f ea (ld_data st)")
  show ?thesis
  proof (cases x)
    case None
    with assms Inr l show ?thesis unfolding load_file_def Let_def by simp
  next
    case (Some e)
    with assms Inr l show ?thesis unfolding load_file_def Let_def by simp
  qed
qed

lemma load_file_data:
  "ld_raised st = None \<Longrightarrow> resolve_path fs f = Inr p \<Longrightarrow>
   ld_data (load_file fs bp m st f) =
     (case ea_open fs f of
        Inl e \<Rightarrow> ld_data st
      | Inr ea \<Rightarrow> fst (load_tags m (compute_run_name (parent p) bp) f ea (ld_data st)))"
  by (cases "ea_open fs f") (simp_all add: load_file_resolved)

lemma load_file_not_raised:
  "ld_raised st = None \<Longrightarrow> resolve_path fs f = Inr p \<Longrightarrow> ld_raised (load_file fs bp m st f) = None"
  by (cases "ea_open fs f") (simp_all add: load_file_resolved)

lemma load_file_new:
  assumes "(t, r) \<in> set (tagged_records (ld_data (load_file fs bp m st f)))"
  shows "(t, r) \<in> set (tagged_records (ld_data st)) \<or>
         (\<exists>ea evs. resolve_path fs f = Inr (resolve fs f) \<and>
            ea_open fs f = Inr ea \<and> (t, Inr evs) \<in> set ea \<and> kept_events m evs \<noteq> [] \<and>
            r = record_of_events (compute_run_name (parent (resolve fs f)) bp) f (kept_events m evs))"
proof (cases "ld_raised st = None")
  case False
  with assms show ?thesis by (simp add: load_file_raised)
next
  case nr: True
  show ?thesis
  proof (cases "resolve_path fs f")
    case (Inl e)
    with assms nr show ?thesis by (simp add: load_file_unresolved)
  next
    case rp: (Inr p)
    then have p: "resolve fs f = p" by (rule resolve_Inr)
    show ?thesis
    proof (cases "ea_open fs f")
      case (Inl e)
      with assms nr rp show ?thesis by (simp add: load_file_data)
    next
      case (Inr ea)
      let ?rn = "compute_run_name (parent p) bp"
      have "ld_data (load_file fs bp m st f) = fst (load_tags m ?rn f ea (ld_data st))"
        using Inr nr rp by (simp add: load_file_data)
      with assms load_tags_new [of t r m ?rn f ea "ld_data st"] Inr rp p show ?thesis by auto
    qed
  qed
qed

lemma load_files_new:
  "(t, r) \<in> set (tagged_records (ld_data (load_files fs bp m st files))) \<Longrightarrow>
   (t, r) \<in> set (tagged_records (ld_data st)) \<or>
   (\<exists>f ea evs. f \<in> set files \<and> resolve_path fs f = Inr (resolve fs f) \<and>
       ea_open fs f = Inr ea \<and> (t, Inr evs) \<in> set ea \<and>
       kept_events m evs \<noteq> [] \<and>
       r = record_of_events (compute_run_name (parent (resolve fs f)) bp) f (kept_events m evs))"
proof (induction files arbitrary: st)
  case Nil
  then show ?case by (simp add: load_files_def)
next
  case (Cons f files)
  from Cons.prems
  have "(t, r) \<in> set (tagged_records (ld_data (load_files fs bp m (load_file fs bp m st f) files)))"
    by (simp add: load_files_def)
  from Cons.IH [OF this] show ?case
    using load_file_new [of t r fs bp m st f] by auto
qed

lemma load_tb_data_new:
  assumes "(t, r) \<in> set (tagged_records (ld_data (load_tb_data fs files bases m)))"
  shows "\<exists>f ea evs. f \<in> set files \<and> resolve_path fs f = Inr (resolve fs f) \<and>
       resolve_all fs bases = Inr (map (resolve fs) bases) \<and>
       ea_open fs f = Inr ea \<and> (t, Inr evs) \<in> set ea \<and>
       kept_events m evs \<noteq> [] \<and>
       r = record_of_events (compute_run_name (parent (resolve fs f)) (map (resolve fs) bases)) f
             (kept_events m evs)"
proof (cases "resolve_all fs bases")
  case (Inl e)
  with assms show ?thesis by (simp add: load_tb_data_def tagged_records_def)
next
  case (Inr bps)
  from resolve_all_Inr [OF Inr] have bps: "bps = map (resolve fs) bases" by simp
  from assms Inr
  have "(t, r) \<in> set (tagged_records (ld_data (load_files fs bps m
           \<lparr>ld_data = [], ld_stdout = [], ld_raised = None\<rparr> files)))"
    by (simp add: load_tb_data_def)
  from load_files_new [OF this] Inr bps show ?thesis
    by (simp add: tagged_records_def)
qed

lemma relative_to_prefix:
  "relative_to p b = (if prefix b p then Inr (drop (length b) p) else Inl (ValueError ''path is not in the subpath of base''))"
  by (auto simp: relative_to_def prefix_def) (metis append_take_drop_id)

lemma find_run_name_find:
  "find_run_name d bs = map_option (\<lambda>b. rel_str (drop (length b) d)) (List.find (\<lambda>b. prefix b d) bs)"
  by (induction bs) (auto simp: relative_to_prefix)

lemma compute_run_name_spec: "compute_run_name d bs = run_identifier d bs"
  by (simp add: compute_run_name_def run_identifier_def find_run_name_find split: option.splits)

lemma stored_tagged:
  "(tag, rs) \<in> set data \<Longrightarrow> r \<in> set rs \<Longrightarrow> (tag, r) \<in> set (tagged_records data)"
  by (force simp: tagged_records_def)

lemma demo_load_5:
  "ld_data (load_tb_data demo_env demo_files [''/logs''] (Some 5)) =
     [(''loss'',
       [\<lparr>sr_steps = [0, 3], sr_values = [4, 2], sr_walltimes = [100, 160],
         sr_run_name = ''run1'', sr_file_path = ''/logs/run1/ev.1''\<rparr>,
        \<lparr>sr_steps = [1], sr_values = [5], sr_walltimes = [10],
         sr_run_name = ''/data/x'', sr_file_path = ''/data/x/ev.3''\<rparr>,
        \<lparr>sr_steps = [2], sr_values = [3], sr_walltimes = [500],
         sr_run_name = ''run1'', sr_file_path = ''/logs/run1/ev.4''\<rparr>])]"
  by (simp add: load_tb_data_def load_files_def load_file_def demo_env_def demo_files_def
        demo_resolve_def demo_open_def parent_def compute_run_name_def relative_to_def
        rel_str_def abs_str_def Let_def)

text \<open>
  Claim C7: every record stored in the collection that \<open>load_tb_data\<close> returns has
  steps, values and walltimes of one length, and that length is at least one.
\<close>

theorem load_tb_data_equal_lengths:
  assumes "(tag, rs) \<in> set (ld_data (load_tb_data fs tb_files base_directories max_step))"
    and "r \<in> set rs"
  shows "length (sr_steps r) = length (sr_values r) \<and>
         length (sr_values r) = length (sr_walltimes r) \<and>
         1 \<le> length (sr_steps r)"
proof -
  from load_tb_data_new [OF stored_tagged [OF assms]]
  obtain rn f evs where "kept_events max_step evs \<noteq> []"
    and "r = record_of_events rn f (kept_events max_step evs)" by blast
  then show ?thesis
    by (cases "kept_events max_step evs") (simp_all add: record_of_events_def)
qed

theorem load_tb_data_equal_lengths_witness:
  "(''loss'', [\<lparr>sr_steps = [0, 3, 6, 9], sr_values = [4, 2, 1, 1],
              sr_walltimes = [100, 160, 220, 280], sr_run_name = ''run1'',
              sr_file_path = ''/logs/run1/ev.1''\<rparr>])
     \<in> set (ld_data (load_tb_data demo_env [''/logs/run1/ev.1'', ''/logs/run2/ev.2''] [''/logs''] None)) \<and>
   length [0, 3, 6, 9 :: int] = length [4, 2, 1, 1 :: real] \<and>
   length [4, 2, 1, 1 :: real] = length [100, 160, 220, 280 :: real] \<and>
   1 \<le> length [0, 3, 6, 9 :: int]"
proof -
  let ?r = "\<lparr>sr_steps = [0, 3, 6, 9], sr_values = [4, 2, 1, 1],
              sr_walltimes = [100, 160, 220, 280], sr_run_name = ''run1'',
              sr_file_path = ''/logs/run1/ev.1''\<rparr>"
  have h: "(''loss'', [?r])
     \<in> set (ld_data (load_tb_data demo_env [''/logs/run1/ev.1'', ''/logs/run2/ev.2''] [''/logs''] None))"
    by (simp add: load_tb_data_def load_files_def load_file_def demo_env_def
        demo_resolve_def demo_open_def parent_def compute_run_name_def relative_to_def
        rel_str_def abs_str_def Let_def)
  have m: "?r \<in> set [?r]" by simp
  from load_tb_data_equal_lengths [OF h m] h show ?thesis by simp
qed

text \<open>
  Claim C2: with the bound \<open>M\<close>, every stored record holds only steps \<open>\<le> M\<close>, and a
  record is stored for a tag and a file only if the bound leaves an observation of that
  tag in that file: when it removes them all, nothing is appended for the pair.
\<close>

theorem load_tb_data_max_step:
  assumes "(tag, rs) \<in> set (ld_data (load_tb_data fs tb_files base_directories (Some M)))"
    and "r \<in> set rs"
  shows "(\<forall>s \<in> set (sr_steps r). s \<le> M) \<and>
         \<not> (\<forall>ea evs. ea_open fs (sr_file_path r) = Inr ea \<longrightarrow> (tag, Inr evs) \<in> set ea \<longrightarrow>
                (\<forall>e \<in> set evs. M < ev_step e))"
proof -
  from load_tb_data_new [OF stored_tagged [OF assms]]
  obtain rn f ea evs where o: "ea_open fs f = Inr ea" and t: "(tag, Inr evs) \<in> set ea"
    and k: "kept_events (Some M) evs \<noteq> []"
    and r: "r = record_of_events rn f (kept_events (Some M) evs)" by blast
  from r have "\<forall>s \<in> set (sr_steps r). s \<le> M"
    by (auto simp: record_of_events_def kept_events_def)
  moreover from k obtain e where "e \<in> set evs" "ev_step e \<le> M"
    by (auto simp: kept_events_def filter_empty_conv)
  moreover from r have "sr_file_path r = f" by (simp add: record_of_events_def)
  ultimately show ?thesis using o t by force
qed

text \<open>
  Claim C3: the run identifier of every stored record is the parent directory of its
  file relative to the first root directory, in the order supplied, that contains it,
  and the absolute parent directory when none does (\<open>run_identifier\<close>; the lemma
  \<open>compute_run_name_spec\<close> says so for every directory, stored or not); so two
  records whose files share the parent directory carry the same identifier. The paths
  are the resolved ones: the file of a stored record and the root directories have
  resolved.
\<close>

theorem load_tb_data_run_name:
  assumes "(tag, rs) \<in> set (ld_data (load_tb_data fs tb_files base_directories max_step))"
    and "r \<in> set rs"
    and "(tag', rs') \<in> set (ld_data (load_tb_data fs tb_files base_directories max_step))"
    and "r' \<in> set rs'"
  shows "sr_run_name r = run_identifier (parent (resolve fs (sr_file_path r)))
                           (map (resolve fs) base_directories) \<and>
         (parent (resolve fs (sr_file_path r)) = parent (resolve fs (sr_file_path r')) \<longrightarrow>
            sr_run_name r = sr_run_name r') \<and>
         resolve_path fs (sr_file_path r) = Inr (resolve fs (sr_file_path r)) \<and>
         resolve_all fs base_directories = Inr (map (resolve fs) base_directories)"
proof -
  have *: "sr_run_name x = run_identifier (parent (resolve fs (sr_file_path x)))
                           (map (resolve fs) base_directories) \<and>
           resolve_path fs (sr_file_path x) = Inr (resolve fs (sr_file_path x)) \<and>
           resolve_all fs base_directories = Inr (map (resolve fs) base_directories)"
    if "(t, xs) \<in> set (ld_data (load_tb_data fs tb_files base_directories max_step))"
      and "x \<in> set xs" for t xs x
  proof -
    from load_tb_data_new [OF stored_tagged [OF that]]
    obtain f evs where rp: "resolve_path fs f = Inr (resolve fs f)"
      and ra: "resolve_all fs base_directories = Inr (map (resolve fs) base_directories)"
      and x: "x = record_of_events (compute_run_name (parent (resolve fs f)) (map (resolve fs) base_directories)) f
             (kept_events max_step evs)" by blast
    from x have "sr_file_path x = f" by (simp add: record_of_events_def)
    with x rp ra show ?thesis by (simp add: record_of_events_def compute_run_name_spec)
  qed
  from * [OF assms(1,2)] * [OF assms(3,4)] show ?thesis by simp
qed

lemma load_tags_error: "snd (load_tags m rn f tags data) = first_error tags"
proof (induction tags arbitrary: data)
  case Nil
  show ?case by simp
next
  case (Cons a tags)
  obtain tg res where a: "a = (tg, res)" by (cases a)
  show ?case
  proof (cases res)
    case (Inl e)
    with a show ?thesis by simp
  next
    case (Inr evs)
    with a Cons.IH show ?thesis by (simp add: load_tags_Inr del: load_tags.simps)
  qed
qed

lemma load_tags_prefix:
  "prefix (records_of data t) (records_of (fst (load_tags m rn f tags data)) t)"
proof (induction tags arbitrary: data)
  case Nil
  show ?case by simp
next
  case (Cons a tags)
  obtain tg res where a: "a = (tg, res)" by (cases a)
  show ?case
  proof (cases res)
    case (Inl e)
    with a show ?thesis by simp
  next
    case (Inr evs)
    show ?thesis
    proof (cases "kept_events m evs \<noteq> []")
      case True
      let ?d = "append_record data tg (record_of_events rn f (kept_events m evs))"
      have "prefix (records_of data t) (records_of ?d t)"
        by (simp add: records_of_append)
      also have "prefix (records_of ?d t) (records_of (fst (load_tags m rn f tags ?d)) t)"
        by (rule Cons.IH)
      finally show ?thesis using True a Inr by (simp add: load_tags_Inr del: load_tags.simps)
    next
      case False
      with a Inr Cons.IH show ?thesis by (simp add: load_tags_Inr del: load_tags.simps)
    qed
  qed
qed

text \<open>Reading stops at the first call that raises.\<close>

lemma load_tags_abandoned:
  "fst (load_tags m rn f tags data)
     = fst (load_tags m rn f (takeWhile (\<lambda>(tag, res). \<not> isl res) tags) data)"
proof (induction tags arbitrary: data)
  case Nil
  show ?case by simp
next
  case (Cons a tags)
  obtain tg res where a: "a = (tg, res)" by (cases a)
  show ?case
  proof (cases res)
    case (Inl e)
    with a show ?thesis by simp
  next
    case (Inr evs)
    with a Cons.IH show ?thesis by (simp add: load_tags_Inr del: load_tags.simps)
  qed
qed

lemma load_file_stdout:
  assumes "ld_raised st = None" "resolve_path fs f = Inr p"
  shows "ld_stdout (load_file fs bp m st f) =
     ld_stdout st @ [''Loading: '' @ f] @
       (case read_error fs f of
          None \<Rightarrow> []
        | Some e \<Rightarrow> [''Failed to load file '' @ f @ '': '' @ exn_str e])"
proof (cases "ea_open fs f")
  case (Inl e)
  then show ?thesis by (simp add: load_file_resolved [OF assms] read_error_def)
next
  case (Inr ea)
  then show ?thesis
    by (simp add: load_file_resolved [OF assms] read_error_def load_tags_error)
qed

lemma load_file_prefix:
  "prefix (records_of (ld_data st) t) (records_of (ld_data (load_file fs bp m st f)) t)"
proof (cases "ld_raised st = None")
  case False
  then show ?thesis by (simp add: load_file_raised)
next
  case nr: True
  show ?thesis
  proof (cases "resolve_path fs f")
    case (Inl e)
    with nr show ?thesis by (simp add: load_file_unresolved)
  next
    case (Inr p)
    with nr show ?thesis by (simp add: load_file_data load_tags_prefix split: sum.splits)
  qed
qed

lemma load_file_stdout_prefix:
  "prefix (ld_stdout st) (ld_stdout (load_file fs bp m st f))"
proof (cases "ld_raised st = None")
  case False
  then show ?thesis by (simp add: load_file_raised)
next
  case nr: True
  show ?thesis
  proof (cases "resolve_path fs f")
    case (Inl e)
    with nr show ?thesis by (simp add: load_file_unresolved)
  next
    case (Inr p)
    with nr show ?thesis by (simp add: load_file_stdout)
  qed
qed

lemma load_files_Cons:
  "load_files fs bp m st (f # files) = load_files fs bp m (load_file fs bp m st f) files"
  by (simp add: load_files_def)

lemma load_files_append:
  "load_files fs bp m st (xs @ ys) = load_files fs bp m (load_files fs bp m st xs) ys"
  by (simp add: load_files_def)

lemma load_files_prefix:
  "prefix (records_of (ld_data st) t) (records_of (ld_data (load_files fs bp m st files)) t)"
proof (induction files arbitrary: st)
  case Nil
  show ?case by (simp add: load_files_def)
next
  case (Cons f files)
  have "prefix (records_of (ld_data st) t) (records_of (ld_data (load_file fs bp m st f)) t)"
    by (rule load_file_prefix)
  also note Cons.IH [of "load_file fs bp m st f"]
  finally show ?case by (simp add: load_files_Cons)
qed

lemma load_files_stdout_prefix:
  "prefix (ld_stdout st) (ld_stdout (load_files fs bp m st files))"
proof (induction files arbitrary: st)
  case Nil
  show ?case by (simp add: load_files_def)
next
  case (Cons f files)
  have "prefix (ld_stdout st) (ld_stdout (load_file fs bp m st f))"
    by (rule load_file_stdout_prefix)
  also note Cons.IH [of "load_file fs bp m st f"]
  finally show ?case by (simp add: load_files_Cons)
qed

text \<open>
  While the paths resolve, no exception leaves the loop and every file is visited.
\<close>

lemma load_files_visits:
  assumes "ld_raised st = None" and "\<forall>g \<in> set files. \<not> isl (resolve_path fs g)"
  shows "ld_raised (load_files fs bp m st files) = None \<and>
         (\<forall>g \<in> set files. ''Loading: '' @ g \<in> set (ld_stdout (load_files fs bp m st files)))"
  using assms
proof (induction files arbitrary: st)
  case Nil
  then show ?case by (simp add: load_files_def)
next
  case (Cons f files)
  from Cons.prems(2) obtain p where p: "resolve_path fs f = Inr p"
    by (cases "resolve_path fs f") auto
  let ?st = "load_file fs bp m st f"
  have nr: "ld_raised ?st = None" by (rule load_file_not_raised [OF Cons.prems(1) p])
  from Cons.prems(2) have rest: "\<forall>g \<in> set files. \<not> isl (resolve_path fs g)" by simp
  from Cons.IH [OF nr rest]
  have a: "ld_raised (load_files fs bp m ?st files) = None"
    and b: "\<forall>g \<in> set files. ''Loading: '' @ g \<in> set (ld_stdout (load_files fs bp m ?st files))"
    by blast+
  have "''Loading: '' @ f \<in> set (ld_stdout ?st)"
    unfolding load_file_stdout [OF Cons.prems(1) p] by simp
  with load_files_stdout_prefix [of ?st fs bp m files]
  have c: "''Loading: '' @ f \<in> set (ld_stdout (load_files fs bp m ?st files))"
    by (blast dest: set_mono_prefix)
  from a b c show ?case unfolding load_files_Cons by simp
qed

lemma load_tb_data_resolved:
  "resolve_all fs base_directories = Inr base_paths \<Longrightarrow>
   load_tb_data fs tb_files base_directories max_step =
     load_files fs base_paths max_step \<lparr>ld_data = [], ld_stdout = [], ld_raised = None\<rparr> tb_files"
  by (simp add: load_tb_data_def)

text \<open>
  Claim C5, as stated, fails in two places. A file whose reading raises is not skipped:
  the records of the tags read before the error stay in the collection, beside the
  line that reports the failure. And the remaining files are processed only while
  their paths resolve: \<open>Path(tb_file).resolve()\<close> comes before the \<open>try\<close>, so its
  exception leaves \<open>load_tb_data\<close> and the files after it are never opened.
\<close>

theorem load_tb_data_failed_file_kept:
  "read_error demo_env ''/data/x/ev.3'' = Some (Other ''truncated record'') \<and>
   load_tb_data demo_env [''/data/x/ev.3'', ''/loop/ev.5'', ''/logs/run1/ev.4''] [''/logs''] None =
     \<lparr>ld_data =
        [(''loss'', [\<lparr>sr_steps = [1], sr_values = [5], sr_walltimes = [10],
                     sr_run_name = ''/data/x'', sr_file_path = ''/data/x/ev.3''\<rparr>])],
      ld_stdout =
        [''Loading: /data/x/ev.3'', ''Failed to load file /data/x/ev.3: truncated record'',
         ''Loading: /loop/ev.5''],
      ld_raised = Some (Other ''Symlink loop'')\<rparr>"
  by (simp add: read_error_def load_tb_data_def load_files_def load_file_def demo_env_def
        demo_resolve_def demo_open_def parent_def compute_run_name_def relative_to_def
        rel_str_def abs_str_def Let_def)

text \<open>
  Claim C5, amended: when opening or reading the file \<open>f\<close> raises \<open>e\<close>,
  \<open>load_tb_data\<close> prints the failure, no exception leaves the function, and the rest
  of the file is abandoned: nothing of it is stored when opening fails, and the records
  of the tags read before the error stay when reading fails. Every record accumulated
  from the files before it keeps its place, and the batch goes on with the files after
  it: as long as their paths resolve, each of them is loaded and the function returns.
\<close>

theorem load_tb_data_file_error:
  assumes "read_error fs f = Some e"
    and "resolve_all fs base_directories = Inr base_paths"
    and "ld_raised (load_tb_data fs before base_directories max_step) = None"
    and "resolve_path fs f = Inr p"
  shows "let st1 = load_tb_data fs before base_directories max_step;
             st2 = load_file fs base_paths max_step st1 f;
             final = load_tb_data fs (before @ f # after) base_directories max_step
         in ld_stdout st2 = ld_stdout st1 @
              [''Loading: '' @ f, ''Failed to load file '' @ f @ '': '' @ exn_str e] \<and>
            ld_raised st2 = None \<and>
            (case ea_open fs f of
               Inl e' \<Rightarrow> ld_data st2 = ld_data st1
             | Inr ea \<Rightarrow>
                 ld_data st2 =
                   fst (load_tags max_step (compute_run_name (parent p) base_paths) f
                          (takeWhile (\<lambda>(tag, res). \<not> isl res) ea) (ld_data st1))) \<and>
            final = load_files fs base_paths max_step st2 after \<and>
            (\<forall>tag. prefix (records_of (ld_data st1) tag) (records_of (ld_data final) tag)) \<and>
            ((\<forall>g \<in> set after. \<not> isl (resolve_path fs g)) \<longrightarrow>
               ld_raised final = None \<and>
               (\<forall>g \<in> set after. ''Loading: '' @ g \<in> set (ld_stdout final)))"
proof -
  let ?st1 = "load_tb_data fs before base_directories max_step"
  let ?st2 = "load_file fs base_paths max_step ?st1 f"
  let ?final = "load_tb_data fs (before @ f # after) base_directories max_step"
  have fin: "?final = load_files fs base_paths max_step ?st2 after"
    by (simp add: load_tb_data_resolved [OF assms(2)] load_files_def)
  have out: "ld_stdout ?st2 = ld_stdout ?st1 @
              [''Loading: '' @ f, ''Failed to load file '' @ f @ '': '' @ exn_str e]"
    using assms(1) by (simp add: load_file_stdout [OF assms(3,4)])
  have nr: "ld_raised ?st2 = None"
    by (rule load_file_not_raised [OF assms(3,4)])
  have skip: "(case ea_open fs f of
               Inl e' \<Rightarrow> ld_data ?st2 = ld_data ?st1
             | Inr ea \<Rightarrow>
                 ld_data ?st2 =
                   fst (load_tags max_step (compute_run_name (parent p) base_paths) f
                          (takeWhile (\<lambda>(tag, res). \<not> isl res) ea) (ld_data ?st1)))"
    by (simp add: load_file_data [OF assms(3,4)] load_tags_abandoned [symmetric] split: sum.splits)
  have keep: "prefix (records_of (ld_data ?st1) tag) (records_of (ld_data ?final) tag)" for tag
  proof -
    have "prefix (records_of (ld_data ?st1) tag) (records_of (ld_data ?st2) tag)"
      by (rule load_file_prefix)
    also have "prefix (records_of (ld_data ?st2) tag) (records_of (ld_data ?final) tag)"
      unfolding fin by (rule load_files_prefix)
    finally show ?thesis .
  qed
  have visit: "ld_raised ?final = None \<and>
               (\<forall>g \<in> set after. ''Loading: '' @ g \<in> set (ld_stdout ?final))"
    if "\<forall>g \<in> set after. \<not> isl (resolve_path fs g)"
    unfolding fin by (rule load_files_visits [OF nr that])
  from out nr skip fin keep visit show ?thesis unfolding Let_def by blast
qed

theorem load_tb_data_file_error_witness:
  "read_error demo_env ''/data/x/ev.3'' = Some (Other ''truncated record'') \<and>
   resolve_all demo_env [''/logs''] = Inr [[''logs'']] \<and>
   ld_raised (load_tb_data demo_env [''/logs/run1/ev.1''] [''/logs''] (Some 5)) = None \<and>
   resolve_path demo_env ''/data/x/ev.3'' = Inr [''data'', ''x'', ''ev.3''] \<and>
   list_all (\<lambda>g. \<not> isl (resolve_path demo_env g)) [''/logs/run1/ev.4''] \<and>
   load_tb_data demo_env [''/logs/run1/ev.1'', ''/data/x/ev.3'', ''/logs/run1/ev.4''] [''/logs''] (Some 5) =
     \<lparr>ld_data =
        [(''loss'',
          [\<lparr>sr_steps = [0, 3], sr_values = [4, 2], sr_walltimes = [100, 160],
            sr_run_name = ''run1'', sr_file_path = ''/logs/run1/ev.1''\<rparr>,
           \<lparr>sr_steps = [1], sr_values = [5], sr_walltimes = [10],
            sr_run_name = ''/data/x'', sr_file_path = ''/data/x/ev.3''\<rparr>,
           \<lparr>sr_steps = [2], sr_values = [3], sr_walltimes = [500],
            sr_run_name = ''run1'', sr_file_path = ''/logs/run1/ev.4''\<rparr>])],
      ld_stdout =
        [''Loading: /logs/run1/ev.1'', ''Loading: /data/x/ev.3'',
         ''Failed to load file /data/x/ev.3: truncated record'', ''Loading: /logs/run1/ev.4''],
      ld_raised = None\<rparr> \<and>
   prefix (records_of (ld_data (load_tb_data demo_env [''/logs/run1/ev.1''] [''/logs''] (Some 5))) ''loss'')
          (records_of (ld_data (load_tb_data demo_env
              [''/logs/run1/ev.1'', ''/data/x/ev.3'', ''/logs/run1/ev.4''] [''/logs''] (Some 5))) ''loss'')"
proof -
  have h1: "read_error demo_env ''/data/x/ev.3'' = Some (Other ''truncated record'')"
    by (simp add: read_error_def demo_env_def demo_open_def)
  have h2: "resolve_all demo_env [''/logs''] = Inr [[''logs'']]"
    by (simp add: demo_env_def demo_resolve_def)
  have h3: "ld_raised (load_tb_data demo_env [''/logs/run1/ev.1''] [''/logs''] (Some 5)) = None"
    by (simp add: load_tb_data_def load_files_def load_file_def demo_env_def
        demo_resolve_def demo_open_def parent_def compute_run_name_def relative_to_def
        rel_str_def abs_str_def Let_def)
  have h4: "resolve_path demo_env ''/data/x/ev.3'' = Inr [''data'', ''x'', ''ev.3'']"
    by (simp add: demo_env_def demo_resolve_def)
  have h5: "list_all (\<lambda>g. \<not> isl (resolve_path demo_env g)) [''/logs/run1/ev.4'']"
    by (simp add: demo_env_def demo_resolve_def)
  have run: "load_tb_data demo_env [''/logs/run1/ev.1'', ''/data/x/ev.3'', ''/logs/run1/ev.4''] [''/logs''] (Some 5) =
     \<lparr>ld_data =
        [(''loss'',
          [\<lparr>sr_steps = [0, 3], sr_values = [4, 2], sr_walltimes = [100, 160],
            sr_run_name = ''run1'', sr_file_path = ''/logs/run1/ev.1''\<rparr>,
           \<lparr>sr_steps = [1], sr_values = [5], sr_walltimes = [10],
            sr_run_name = ''/data/x'', sr_file_path = ''/data/x/ev.3''\<rparr>,
           \<lparr>sr_steps = [2], sr_values = [3], sr_walltimes = [500],
            sr_run_name = ''run1'', sr_file_path = ''/logs/run1/ev.4''\<rparr>])],
      ld_stdout =
        [''Loading: /logs/run1/ev.1'', ''Loading: /data/x/ev.3'',
         ''Failed to load file /data/x/ev.3: truncated record'', ''Loading: /logs/run1/ev.4''],
      ld_raised = None\<rparr>"
    by (simp add: load_tb_data_def load_files_def load_file_def demo_env_def
        demo_resolve_def demo_open_def parent_def compute_run_name_def relative_to_def
        rel_str_def abs_str_def Let_def)
  from load_tb_data_file_error [OF h1 h2 h3 h4, of "[''/logs/run1/ev.4'']"]
  have "\<forall>tag. prefix (records_of (ld_data (load_tb_data demo_env [''/logs/run1/ev.1''] [''/logs''] (Some 5))) tag)
          (records_of (ld_data (load_tb_data demo_env
              ([''/logs/run1/ev.1''] @ [''/data/x/ev.3'', ''/logs/run1/ev.4'']) [''/logs''] (Some 5))) tag)"
    unfolding Let_def by blast
  then have "prefix (records_of (ld_data (load_tb_data demo_env [''/logs/run1/ev.1''] [''/logs''] (Some 5))) ''loss'')
          (records_of (ld_data (load_tb_data demo_env
              [''/logs/run1/ev.1'', ''/data/x/ev.3'', ''/logs/run1/ev.4''] [''/logs''] (Some 5))) ''loss'')"
    by simp
  with h1 h2 h3 h4 h5 run show ?thesis by blast
qed

theorem load_tb_data_max_step_witness:
  "(''loss'',
       [\<lparr>sr_steps = [0, 3], sr_values = [4, 2], sr_walltimes = [100, 160],
         sr_run_name = ''run1'', sr_file_path = ''/logs/run1/ev.1''\<rparr>,
        \<lparr>sr_steps = [1], sr_values = [5], sr_walltimes = [10],
         sr_run_name = ''/data/x'', sr_file_path = ''/data/x/ev.3''\<rparr>,
        \<lparr>sr_steps = [2], sr_values = [3], sr_walltimes = [500],
         sr_run_name = ''run1'', sr_file_path = ''/logs/run1/ev.4''\<rparr>])
     \<in> set (ld_data (load_tb_data demo_env demo_files [''/logs''] (Some 5))) \<and>
   map fst (ld_data (load_tb_data demo_env demo_files [''/logs''] (Some 5))) = [''loss''] \<and>
   list_all (\<lambda>s. s \<le> 5) [0, 3 :: int]"
proof -
  let ?r = "\<lparr>sr_steps = [0, 3], sr_values = [4, 2], sr_walltimes = [100, 160],
         sr_run_name = ''run1'', sr_file_path = ''/logs/run1/ev.1''\<rparr>"
  let ?rs = "[?r,
        \<lparr>sr_steps = [1], sr_values = [5], sr_walltimes = [10],
         sr_run_name = ''/data/x'', sr_file_path = ''/data/x/ev.3''\<rparr>,
        \<lparr>sr_steps = [2], sr_values = [3], sr_walltimes = [500],
         sr_run_name = ''run1'', sr_file_path = ''/logs/run1/ev.4''\<rparr>]"
  have h: "(''loss'', ?rs) \<in> set (ld_data (load_tb_data demo_env demo_files [''/logs''] (Some 5)))"
    by (simp add: demo_load_5)
  have m: "?r \<in> set ?rs" by simp
  from load_tb_data_max_step [OF h m] have "list_all (\<lambda>s. s \<le> 5) [0, 3 :: int]" by simp
  with h show ?thesis by (simp add: demo_load_5)
qed

theorem load_tb_data_run_name_witness:
  "(''loss'',
       [\<lparr>sr_steps = [0, 3], sr_values = [4, 2], sr_walltimes = [100, 160],
         sr_run_name = ''run1'', sr_file_path = ''/logs/run1/ev.1''\<rparr>,
        \<lparr>sr_steps = [1], sr_values = [5], sr_walltimes = [10],
         sr_run_name = ''/data/x'', sr_file_path = ''/data/x/ev.3''\<rparr>,
        \<lparr>sr_steps = [2], sr_values = [3], sr_walltimes = [500],
         sr_run_name = ''run1'', sr_file_path = ''/logs/run1/ev.4''\<rparr>])
     \<in> set (ld_data (load_tb_data demo_env demo_files [''/logs''] (Some 5))) \<and>
   run_identifier (parent (resolve demo_env ''/logs/run1/ev.1'')) (map (resolve demo_env) [''/logs'']) = ''run1'' \<and>
   run_identifier (parent (resolve demo_env ''/data/x/ev.3'')) (map (resolve demo_env) [''/logs'']) = ''/data/x'' \<and>
   parent (resolve demo_env ''/logs/run1/ev.1'') = parent (resolve demo_env ''/logs/run1/ev.4'')"
proof -
  let ?r1 = "\<lparr>sr_steps = [0, 3], sr_values = [4, 2], sr_walltimes = [100, 160],
         sr_run_name = ''run1'', sr_file_path = ''/logs/run1/ev.1''\<rparr>"
  let ?r3 = "\<lparr>sr_steps = [1], sr_values = [5], sr_walltimes = [10],
         sr_run_name = ''/data/x'', sr_file_path = ''/data/x/ev.3''\<rparr>"
  let ?r4 = "\<lparr>sr_steps = [2], sr_values = [3], sr_walltimes = [500],
         sr_run_name = ''run1'', sr_file_path = ''/logs/run1/ev.4''\<rparr>"
  have h: "(''loss'', [?r1, ?r3, ?r4]) \<in> set (ld_data (load_tb_data demo_env demo_files [''/logs''] (Some 5)))"
    by (simp add: demo_load_5)
  have m1: "?r1 \<in> set [?r1, ?r3, ?r4]" and m3: "?r3 \<in> set [?r1, ?r3, ?r4]"
    and m4: "?r4 \<in> set [?r1, ?r3, ?r4]" by simp_all
  have p: "parent (resolve demo_env ''/logs/run1/ev.1'') = parent (resolve demo_env ''/logs/run1/ev.4'')"
    by (simp add: parent_def resolve_def demo_env_def demo_resolve_def)
  from load_tb_data_run_name [OF h m1 h m4] load_tb_data_run_name [OF h m3 h m4] h p
  show ?thesis by (simp add: resolve_def)
qed

section \<open>Properties of the Figure Composer and of the Color Assignment\<close>

lemma assigned_color_append:
  "n \<in> set xs \<Longrightarrow> assigned_color colors (xs @ ys) n = assigned_color colors xs n"
  by (simp add: assigned_color_def takeWhile_append1 [of n xs])

lemma takeWhile_not_mem: "n \<notin> set xs \<Longrightarrow> takeWhile (\<lambda>x. x \<noteq> n) xs = xs"
  by (induction xs) auto

lemma resolve_color_inv:
  assumes "color_inv colors seen cs" and "resolve_color colors cs n = (c, cs')"
  shows "c = assigned_color colors (seen @ [n]) n \<and> color_inv colors (seen @ [n]) cs'"
proof (cases "n \<in> set seen")
  case True
  with assms(1) have look: "run_color_map cs n = Some (assigned_color colors seen n)"
    by (simp add: color_inv_def)
  with assms(2) have c: "c = assigned_color colors seen n" and cs: "cs' = cs"
    by (simp_all add: resolve_color_def)
  have len: "length (remdups (seen @ [n])) = length (remdups seen)"
    using True by (simp add: length_remdups_card_conv insert_absorb)
  have "color_inv colors (seen @ [n]) cs"
    using assms(1) True len
    by (auto simp: color_inv_def assigned_color_append simp del: remdups_append)
  with c cs True show ?thesis by (simp add: assigned_color_append)
next
  case False
  with assms(1) have look: "run_color_map cs n = None" by (simp add: color_inv_def)
  have pos: "color_pos cs = length (remdups seen)" using assms(1) by (simp add: color_inv_def)
  have "takeWhile (\<lambda>x. x \<noteq> n) (seen @ [n]) = seen"
    using False by (induction seen) auto
  then have new: "assigned_color colors (seen @ [n]) n = colors ! (color_pos cs mod length colors)"
    using pos by (simp add: assigned_color_def)
  from assms(2) look have c: "c = colors ! (color_pos cs mod length colors)"
    and cs: "cs' = \<lparr>color_pos = Suc (color_pos cs),
                    run_color_map = (run_color_map cs)(n \<mapsto> colors ! (color_pos cs mod length colors))\<rparr>"
    by (auto simp: resolve_color_def Let_def)
  have len: "length (remdups (seen @ [n])) = Suc (length (remdups seen))"
    using False by (simp add: length_remdups_card_conv)
  have "color_inv colors (seen @ [n]) cs'"
    unfolding color_inv_def
  proof (intro conjI allI)
    show "color_pos cs' = length (remdups (seen @ [n]))"
      using cs pos len by simp
  next
    fix m
    show "run_color_map cs' m =
           (if m \<in> set (seen @ [n]) then Some (assigned_color colors (seen @ [n]) m) else None)"
    proof (cases "m = n")
      case True
      then show ?thesis using cs new by simp
    next
      case neq: False
      have "run_color_map cs' m = run_color_map cs m" using cs neq by simp
      also have "\<dots> = (if m \<in> set seen then Some (assigned_color colors seen m) else None)"
        using assms(1) by (simp add: color_inv_def)
      finally show ?thesis using neq by (auto simp: assigned_color_append)
    qed
  qed
  with c new show ?thesis by simp
qed

lemma color_inv_init: "color_inv colors [] \<lparr>color_pos = 0, run_color_map = Map.empty\<rparr>"
  by (simp add: color_inv_def)

lemma draw_runs_colors:
  assumes "color_inv colors seen cs"
    and "draw_runs opts colors rs cs lines = Inr (lines', cs')"
  shows "color_inv colors (seen @ map sr_run_name rs) cs' \<and>
         (\<exists>new. lines' = lines @ new \<and>
            draw_with_colors opts (assigned_color colors (seen @ map sr_run_name rs @ later)) rs = Inr new)"
  using assms
proof (induction rs arbitrary: seen cs lines)
  case Nil
  then show ?case by simp
next
  case (Cons r rs)
  let ?n = "sr_run_name r"
  obtain c cs1 where rc: "resolve_color colors cs ?n = (c, cs1)"
    by (cases "resolve_color colors cs ?n")
  from resolve_color_inv [OF Cons.prems(1) rc]
  have c: "c = assigned_color colors (seen @ [?n]) ?n"
    and inv1: "color_inv colors (seen @ [?n]) cs1" by simp_all
  have c': "c = assigned_color colors (seen @ map sr_run_name (r # rs) @ later) ?n"
    using assigned_color_append [of ?n "seen @ [?n]" colors "map sr_run_name rs @ later"] c
    by simp
  from Cons.prems(2) rc obtain new1 where
    d1: "draw_lines opts r c = Inr new1"
    and rest: "draw_runs opts colors rs cs1 (lines @ new1) = Inr (lines', cs')"
    by (auto split: sum.splits)
  from Cons.IH [OF inv1 rest]
  obtain new2 where inv': "color_inv colors ((seen @ [?n]) @ map sr_run_name rs) cs'"
    and l: "lines' = (lines @ new1) @ new2"
    and d2: "draw_with_colors opts (assigned_color colors ((seen @ [?n]) @ map sr_run_name rs @ later)) rs = Inr new2"
    by blast
  have "draw_with_colors opts (assigned_color colors (seen @ map sr_run_name (r # rs) @ later)) (r # rs)
          = Inr (new1 @ new2)"
    using d1 d2 c' by simp
  with inv' l show ?case by simp
qed

lemma finish_subplot_sel:
  "sp_lines (finish_subplot opts n_cols idx metric_name lines) = lines"
  "sp_title (finish_subplot opts n_cols idx metric_name lines) = metric_name"
  by (simp_all add: finish_subplot_def)

lemma draw_metrics_Cons:
  "draw_runs opts colors runs cs [] = Inr (lines, cs1) \<Longrightarrow>
   draw_metrics opts colors n_cols ((idx, metric_name, runs) # items) cs axes =
     draw_metrics opts colors n_cols items cs1 (axes @ [finish_subplot opts n_cols idx metric_name lines])"
  by simp

lemma draw_metrics_Cons_Inl:
  "draw_runs opts colors runs cs [] = Inl e \<Longrightarrow>
   draw_metrics opts colors n_cols ((idx, metric_name, runs) # items) cs axes = Inl e"
  by simp

lemma draw_metrics_colors:
  assumes "color_inv colors seen cs"
    and "draw_metrics opts colors n_cols items cs axes = Inr (axes', cs')"
    and "names = seen @ concat (map (\<lambda>item. map sr_run_name (snd (snd item))) items) @ later"
  shows "\<exists>new. axes' = axes @ new \<and>
           list_all2 (\<lambda>item ax. draw_with_colors opts (assigned_color colors names) (snd (snd item))
                                  = Inr (sp_lines ax) \<and> sp_title ax = fst (snd item)) items new"
  using assms
proof (induction items arbitrary: seen cs axes)
  case Nil
  then show ?case by simp
next
  case (Cons item items)
  obtain idx metric_name runs where item: "item = (idx, metric_name, runs)" by (cases item)
  let ?rest = "concat (map (\<lambda>item. map sr_run_name (snd (snd item))) items)"
  have names: "names = seen @ map sr_run_name runs @ ?rest @ later"
    using Cons.prems(3) item by simp
  show ?case
  proof (cases "draw_runs opts colors runs cs []")
    case (Inl e)
    from Cons.prems(2) show ?thesis
      unfolding item draw_metrics_Cons_Inl [OF Inl] by simp
  next
    case (Inr res)
    obtain lines cs1 where res: "res = (lines, cs1)" by (cases res)
    let ?ax = "finish_subplot opts n_cols idx metric_name lines"
    from Inr res have dr: "draw_runs opts colors runs cs [] = Inr (lines, cs1)" by simp
    from Cons.prems(2)
    have dm: "draw_metrics opts colors n_cols items cs1 (axes @ [?ax]) = Inr (axes', cs')"
      unfolding item draw_metrics_Cons [OF dr] .
    from draw_runs_colors [OF Cons.prems(1) dr, of "?rest @ later"]
    have inv1: "color_inv colors (seen @ map sr_run_name runs) cs1"
      and here: "draw_with_colors opts (assigned_color colors names) runs = Inr lines"
      unfolding names by auto
    have names': "names = (seen @ map sr_run_name runs) @ ?rest @ later"
      using names by simp
    from Cons.IH [OF inv1 dm names']
    obtain new where a: "axes' = (axes @ [?ax]) @ new"
      and l: "list_all2 (\<lambda>item ax. draw_with_colors opts (assigned_color colors names) (snd (snd item))
                                  = Inr (sp_lines ax) \<and> sp_title ax = fst (snd item)) items new"
      by blast
    have a': "axes' = axes @ (?ax # new)" using a by simp
    have "list_all2 (\<lambda>item ax. draw_with_colors opts (assigned_color colors names) (snd (snd item))
                                  = Inr (sp_lines ax) \<and> sp_title ax = fst (snd item)) (item # items) (?ax # new)"
      using l here by (simp add: item finish_subplot_sel)
    with a' show ?thesis by blast
  qed
qed

lemma list_all2_enumerate:
  "list_all2 (\<lambda>item y. P (snd item) y) (enumerate n xs) ys \<longleftrightarrow> list_all2 P xs ys"
proof (induction xs arbitrary: n ys)
  case Nil
  show ?case by simp
next
  case (Cons x xs)
  show ?case by (cases ys) (simp_all add: Cons.IH)
qed

lemma create_visualization_Saved:
  assumes "create_visualization rc_colors data opts = Inr (Saved fig)"
  shows "\<exists>cs. draw_metrics opts (palette rc_colors) (min (int (length data)) (max_cols opts))
               (enumerate 0 (sorted_items data))
               \<lparr>color_pos = 0, run_color_map = Map.empty\<rparr> [] = Inr (fig_axes fig, cs)"
proof -
  let ?n_cols = "min (int (length data)) (max_cols opts)"
  let ?n_rows = "(int (length data) + ?n_cols - 1) div ?n_cols"
  let ?w = "fst (figsize_per_plot opts) * real_of_int ?n_cols"
  let ?h = "snd (figsize_per_plot opts) * real_of_int ?n_rows"
  let ?dm = "draw_metrics opts (palette rc_colors) ?n_cols (enumerate 0 (sorted_items data))
           \<lparr>color_pos = 0, run_color_map = Map.empty\<rparr> []"
  have ne: "data \<noteq> []"
    using assms by (cases "data = []") (simp_all add: create_visualization_def)
  have nz: "?n_cols \<noteq> 0"
    using assms ne by (cases "?n_cols = 0") (simp_all add: create_visualization_def Let_def)
  have size: "\<not> (?w < 0 \<or> ?h < 0)"
    using assms ne nz by (cases "?w < 0 \<or> ?h < 0") (simp_all add: create_visualization_def Let_def)
  have grid: "\<not> (?n_rows \<le> 0 \<or> ?n_cols \<le> 0)"
    using assms ne nz size
    by (cases "?n_rows \<le> 0 \<or> ?n_cols \<le> 0") (simp_all add: create_visualization_def Let_def)
  have unf: "create_visualization rc_colors data opts =
     (case ?dm of
        Inl e \<Rightarrow> Inl e
      | Inr (axes, cs) \<Rightarrow>
          Inr (Saved \<lparr>fig_width = ?w, fig_height = ?h, fig_rows = ?n_rows, fig_cols = ?n_cols,
                      fig_axes = axes, fig_suptitle = ''TensorBoard Metrics Visualization'',
                      fig_saved_to = output_path opts\<rparr>))"
    using ne nz size grid by (simp add: create_visualization_def Let_def)
  show ?thesis
  proof (cases ?dm)
    case (Inl e)
    with assms unf show ?thesis by simp
  next
    case (Inr res)
    obtain axes cs where res: "res = (axes, cs)" by (cases res)
    with Inr assms unf have "fig_axes fig = axes" by auto
    with Inr res show ?thesis by simp
  qed
qed

lemma create_visualization_axes:
  assumes "create_visualization rc_colors data opts = Inr (Saved fig)"
  shows "list_all2 (\<lambda>entry ax.
            draw_with_colors opts (assigned_color (palette rc_colors) (drawn_names data)) (snd entry)
              = Inr (sp_lines ax) \<and> sp_title ax = fst entry)
           (sorted_items data) (fig_axes fig)"
proof -
  from create_visualization_Saved [OF assms] obtain cs where
    dm: "draw_metrics opts (palette rc_colors) (min (int (length data)) (max_cols opts))
               (enumerate 0 (sorted_items data))
               \<lparr>color_pos = 0, run_color_map = Map.empty\<rparr> [] = Inr (fig_axes fig, cs)" by blast
  have "map (\<lambda>item. map sr_run_name (snd (snd item))) (enumerate 0 (sorted_items data))
          = map (\<lambda>entry. map sr_run_name (snd entry)) (map snd (enumerate 0 (sorted_items data)))"
    unfolding map_map comp_def ..
  also have "\<dots> = map (\<lambda>entry. map sr_run_name (snd entry)) (sorted_items data)"
    by (simp only: map_snd_enumerate)
  finally have "concat (map (\<lambda>item. map sr_run_name (snd (snd item))) (enumerate 0 (sorted_items data)))
          = drawn_names data"
    by (simp add: drawn_names_def case_prod_unfold)
  then have names: "drawn_names data =
      [] @ concat (map (\<lambda>item. map sr_run_name (snd (snd item))) (enumerate 0 (sorted_items data))) @ []"
    by simp
  from draw_metrics_colors [OF color_inv_init dm names]
  have "list_all2 (\<lambda>item ax. draw_with_colors opts (assigned_color (palette rc_colors) (drawn_names data))
                                 (snd (snd item)) = Inr (sp_lines ax) \<and> sp_title ax = fst (snd item))
          (enumerate 0 (sorted_items data)) (fig_axes fig)"
    by simp
  then show ?thesis
    by (simp add: list_all2_enumerate
          [of "\<lambda>entry ax. draw_with_colors opts (assigned_color (palette rc_colors) (drawn_names data))
                             (snd entry) = Inr (sp_lines ax) \<and> sp_title ax = fst entry"])
qed

text \<open>In show-both mode a record gives its two curves, if both are drawn.\<close>

lemma draw_lines_both:
  assumes "truthy (smooth_method opts)" "show_raw_and_smooth opts"
    and "draw_lines opts r c = Inr new"
  shows "\<exists>raw sm. new = [raw, sm] \<and> raw_then_smooth opts r raw sm \<and> pc_color raw = c"
proof -
  let ?sv = "smooth_values (sr_values r) (the (smooth_method opts)) (smooth_window opts)"
  let ?raw = "ax_plot (x_data_of opts r) (sr_values r) ''_nolegend_'' c 0.35 1.0"
  show ?thesis
  proof (cases ?raw)
    case (Inl e)
    with assms show ?thesis by (simp add: draw_lines_def Let_def)
  next
    case raw: (Inr raw_line)
    then have rl: "raw_line = \<lparr>pc_x = x_data_of opts r, pc_y = sr_values r, pc_label = ''_nolegend_'',
                           pc_color = c, pc_alpha = 0.35, pc_linewidth = 1.0\<rparr>"
      by (simp add: ax_plot_def split: if_splits)
    show ?thesis
    proof (cases ?sv)
      case (Inl e)
      with assms raw show ?thesis by (simp add: draw_lines_def Let_def)
    next
      case sv: (Inr arr)
      let ?sm = "ax_plot (x_data_of opts r) arr (sr_run_name r) (pc_color raw_line) 0.9 1.6"
      show ?thesis
      proof (cases ?sm)
        case (Inl e)
        with assms raw sv show ?thesis by (simp add: draw_lines_def Let_def)
      next
        case sm: (Inr smooth_line)
        then have sl: "smooth_line = \<lparr>pc_x = x_data_of opts r, pc_y = arr, pc_label = sr_run_name r,
                         pc_color = c, pc_alpha = 0.9, pc_linewidth = 1.6\<rparr>"
          using rl by (simp add: ax_plot_def split: if_splits)
        from assms raw sv sm have "new = [raw_line, smooth_line]"
          by (simp add: draw_lines_def Let_def)
        then show ?thesis using rl sl sv by (simp add: raw_then_smooth_def)
      qed
    qed
  qed
qed

lemma draw_with_colors_both:
  assumes "truthy (smooth_method opts)" "show_raw_and_smooth opts"
    and "draw_with_colors opts c runs = Inr lines"
  shows "length lines = 2 * length runs \<and>
         (\<forall>i < length runs. raw_then_smooth opts (runs ! i) (lines ! (2 * i)) (lines ! (2 * i + 1)))"
  using assms(3)
proof (induction runs arbitrary: lines)
  case Nil
  then show ?case by simp
next
  case (Cons r runs)
  from Cons.prems obtain new others where n: "draw_lines opts r (c (sr_run_name r)) = Inr new"
    and m: "draw_with_colors opts c runs = Inr others" and l: "lines = new @ others"
    by (auto split: sum.splits)
  from draw_lines_both [OF assms(1,2) n] obtain raw sm where
    new: "new = [raw, sm]" and rs: "raw_then_smooth opts r raw sm" by blast
  from Cons.IH [OF m] have len: "length others = 2 * length runs"
    and ih: "\<forall>i < length runs. raw_then_smooth opts (runs ! i) (others ! (2 * i)) (others ! (2 * i + 1))"
    by simp_all
  have "raw_then_smooth opts ((r # runs) ! i) (lines ! (2 * i)) (lines ! (2 * i + 1))"
    if "i < length (r # runs)" for i
  proof (cases i)
    case 0
    then show ?thesis using rs l new by simp
  next
    case (Suc j)
    with that have "j < length runs" by simp
    with ih have "raw_then_smooth opts (runs ! j) (others ! (2 * j)) (others ! (2 * j + 1))" by simp
    then show ?thesis using Suc l new by simp
  qed
  then show ?case using l new len by simp
qed

text \<open>
  So whenever the figure is drawn to the end in show-both mode, every subplot holds two
  curves per record, the raw one and then the smoothed one in its colour.
\<close>

lemma create_visualization_two_curves:
  assumes "truthy (smooth_method opts)" and "show_raw_and_smooth opts"
    and "create_visualization rc_colors data opts = Inr (Saved fig)"
  shows "list_all2
              (\<lambda>entry ax.
                 length (sp_lines ax) = 2 * length (snd entry) \<and>
                 (\<forall>i < length (snd entry).
                    raw_then_smooth opts (snd entry ! i)
                      (sp_lines ax ! (2 * i)) (sp_lines ax ! (2 * i + 1))))
              (sorted_items data) (fig_axes fig)"
  using create_visualization_axes [OF assms(3)]
proof (rule list_all2_mono)
  fix entry ax
  assume "draw_with_colors opts (assigned_color (palette rc_colors) (drawn_names data)) (snd entry)
            = Inr (sp_lines ax) \<and> sp_title ax = fst entry"
  then have "draw_with_colors opts (assigned_color (palette rc_colors) (drawn_names data)) (snd entry)
            = Inr (sp_lines ax)" ..
  from draw_with_colors_both [OF assms(1,2) this]
  show "length (sp_lines ax) = 2 * length (snd entry) \<and>
               (\<forall>i < length (snd entry).
                  raw_then_smooth opts (snd entry ! i)
                    (sp_lines ax ! (2 * i)) (sp_lines ax ! (2 * i + 1)))" .
qed

lemma demo_sorted: "sorted_items demo_data =
     [(''acc'', [demo_record ''b'' [2, 4], demo_record ''a'' [5]]),
      (''loss'', [demo_record ''a'' [4, 2, 6], demo_record ''b'' [1, 3]])]"
  by (simp add: sorted_items_def demo_data_def)

lemma demo_names: "drawn_names demo_data = [''b'', ''a'', ''a'', ''b'']"
  by (simp add: drawn_names_def demo_sorted demo_record_def)

lemma py_float_3: "py_float 3 = Inr 3"
  by (simp add: py_float_def float_overflow_bound_def)

lemma demo_ema:
  "smooth_values [2, 4] ''ema'' (Some 3) = Inr [2, 3]"
  "smooth_values [5] ''ema'' (Some 3) = Inr [5]"
  "smooth_values [4, 2, 6] ''ema'' (Some 3) = Inr [4, 3, 9 / 2]"
  "smooth_values [1, 3] ''ema'' (Some 3) = Inr [1, 2]"
  by (simp_all add: smooth_values_def py_float_3 np_empty_like_def ema_loop.simps Let_def)

lemma demo_run:
  "create_visualization None demo_data demo_options = Inr (Saved demo_figure)"
  by (simp add: create_visualization_def demo_sorted Let_def enumerate_simps
      resolve_color_def palette_def fallback_colors_def draw_lines_def ax_plot_def truthy_def
      x_data_of_def demo_options_def demo_record_def demo_ema finish_subplot_def demo_figure_def
      upt_conv_Cons)
     (simp add: demo_data_def)

text \<open>
  Claim C6: within one execution of \<open>create_visualization\<close> the colour of a line is a
  function of the run identifier of its record, the same in every subplot: the
  identifiers take the colours of the palette, cyclically, in the order of their first
  draw (\<open>assigned_color\<close>), and every line of every subplot is drawn in the colour
  that this function gives its record.
\<close>

theorem create_visualization_colors:
  assumes "create_visualization rc_colors data opts = Inr (Saved fig)"
  shows "list_all2
           (\<lambda>entry ax.
              draw_with_colors opts (assigned_color (palette rc_colors) (drawn_names data)) (snd entry)
                = Inr (sp_lines ax))
           (sorted_items data) (fig_axes fig)"
  using create_visualization_axes [OF assms]
  by (rule list_all2_mono) simp

theorem create_visualization_colors_witness:
  "create_visualization None demo_data demo_options = Inr (Saved demo_figure) \<and>
   list_all2
     (\<lambda>entry ax.
        draw_with_colors demo_options (assigned_color (palette None) (drawn_names demo_data)) (snd entry)
          = Inr (sp_lines ax))
     (sorted_items demo_data) (fig_axes demo_figure) \<and>
   assigned_color (palette None) (drawn_names demo_data) ''b'' = ''#1f77b4'' \<and>
   assigned_color (palette None) (drawn_names demo_data) ''a'' = ''#ff7f0e''"
proof -
  have "assigned_color (palette None) (drawn_names demo_data) ''b'' = ''#1f77b4''"
    and "assigned_color (palette None) (drawn_names demo_data) ''a'' = ''#ff7f0e''"
    by (simp_all add: demo_names assigned_color_def palette_def fallback_colors_def)
  with demo_run create_visualization_colors [OF demo_run] show ?thesis by blast
qed

text \<open>
  Claim C9 says that with a smoothing method and show-both mode two curves are drawn
  for every record, the raw one and then the smoothed one. With the moving average and
  a window longer than the series, the smoothed values are more than the x-values
  (\<open>smooth_values_ma_length\<close>): for a run of three observations and the default window
  of ten, the raw curve is drawn and the second \<open>ax.plot\<close> raises \<open>ValueError\<close>, which
  leaves \<open>create_visualization\<close> before anything is saved. Whenever the figure is
  drawn to the end it is as the claim says (\<open>create_visualization_two_curves\<close>).
\<close>

theorem create_visualization_ma_short_run:
  "truthy (smooth_method ma_options) \<and> show_raw_and_smooth ma_options \<and>
   draw_lines ma_options (demo_record ''run1'' [1, 2, 3]) ''#1f77b4''
     = Inl (ValueError ''x and y must have same first dimension'') \<and>
   create_visualization None short_data ma_options
     = Inl (ValueError ''x and y must have same first dimension'')"
proof -
  have f: "py_float 10 = Inr 10"
    by (simp add: py_float_def float_overflow_bound_def)
  have sv: "smooth_values [1, 2, 3] ''ma'' (Some 10)
              = Inr [3/10, 3/5, 3/5, 3/5, 3/5, 3/5, 3/5, 3/5, 3/5, 1/2]"
    by (simp add: smooth_values_def f np_convolve_same_def ma_kernel_def conv_full_def
          upt_conv_Cons nth_Cons')
  have dl: "draw_lines ma_options (demo_record ''run1'' [1, 2, 3]) c
              = Inl (ValueError ''x and y must have same first dimension'')" for c
    by (simp add: draw_lines_def ax_plot_def truthy_def x_data_of_def ma_options_def
          demo_record_def sv upt_conv_Cons)
  have "create_visualization None short_data ma_options
          = Inl (ValueError ''x and y must have same first dimension'')"
    by (simp add: create_visualization_def short_data_def sorted_items_def Let_def enumerate_simps
          resolve_color_def palette_def fallback_colors_def dl)
       (simp add: ma_options_def)
  with dl show ?thesis by (simp add: truthy_def ma_options_def)
qed

end
